theory Spec2Isabelle
  imports Main "HOL-Library.Sublist"
begin

section \<open>Value types (types.hpp)\<close>

text \<open>
  \<^verbatim>\<open>OrderId\<close> is \<^verbatim>\<open>uint64_t\<close> and is only ever compared for equality, so it is a
  natural number. \<^verbatim>\<open>Price\<close>, \<^verbatim>\<open>Qty\<close> and \<^verbatim>\<open>Timestamp\<close> are \<^verbatim>\<open>int64_t\<close>. Prices and
  timestamps are only compared and copied, so they are integers. Quantities are
  integers too, with the 64-bit wrap-around written out where the code adds to or
  subtracts from an accumulator that can leave the range: \<^verbatim>\<open>total_quantity_\<close> of a
  level and \<^verbatim>\<open>total_volume_\<close> of the book. The other two subtractions,
  \<^verbatim>\<open>front_order.quantity -= quantity\<close> and \<^verbatim>\<open>remaining_qty -= maker_order.quantity\<close>,
  are guarded by \<^verbatim>\<open>front_order.quantity > quantity > 0\<close> and by
  \<^verbatim>\<open>0 < maker_order.quantity <= remaining_qty\<close> in every reachable book (resting
  quantities are positive there), so their results stay between the operands. The
  \<^verbatim>\<open>size_t\<close> counters are integers: they move by one per order or trade, and a
  decrement below zero would show as a negative value.

  \<^verbatim>\<open>Order\<close>, \<^verbatim>\<open>Trade\<close> and \<^verbatim>\<open>Event\<close> share member names (\<^verbatim>\<open>price\<close>, \<^verbatim>\<open>quantity\<close>,
  \<^verbatim>\<open>timestamp\<close>); the fields carry a prefix (\<open>o_\<close>, \<open>t_\<close>, \<open>e_\<close>) to keep them apart.
\<close>

type_synonym OrderId = nat
type_synonym Price = int
type_synonym Qty = int
type_synonym Timestamp = int

text \<open>
  \<open>wrap64 x\<close> is the value an \<^verbatim>\<open>int64_t\<close> holds after an addition or subtraction
  whose exact result is \<open>x\<close>: \<open>x\<close> reduced modulo \<open>2^64\<close> into the range from \<open>-2^63\<close>
  to \<open>2^63 - 1\<close>.
\<close>

definition wrap64 :: "int \<Rightarrow> int" where
  "wrap64 x = (x + 9223372036854775808) mod 18446744073709551616 - 9223372036854775808"

datatype Side = BUY | SELL

datatype EventType = LIMIT | MARKET | CANCEL

record Order =
  o_id :: OrderId
  o_side :: Side
  o_price :: Price
  o_quantity :: Qty
  o_timestamp :: Timestamp

record Trade =
  maker_id :: OrderId
  taker_id :: OrderId
  t_price :: Price
  t_quantity :: Qty
  t_timestamp :: Timestamp

definition is_valid_price :: "Price \<Rightarrow> bool" where
  "is_valid_price price = (price > 0)"

definition is_valid_quantity :: "Qty \<Rightarrow> bool" where
  "is_valid_quantity quantity = (quantity > 0)"

section \<open>OrderBookPriceLevel (order_book.hpp)\<close>

text \<open>The deque \<^verbatim>\<open>orders_\<close> is a list with its front at the head.\<close>

record OrderBookPriceLevel =
  orders :: "Order list"
  total_quantity :: Qty

definition empty_level :: OrderBookPriceLevel where
  "empty_level = \<lparr>orders = [], total_quantity = 0\<rparr>"

definition add_order :: "Order \<Rightarrow> OrderBookPriceLevel \<Rightarrow> OrderBookPriceLevel" where
  "add_order ord lvl =
     lvl\<lparr>orders := orders lvl @ [ord],
         total_quantity := wrap64 (total_quantity lvl + o_quantity ord)\<rparr>"

text \<open>
  The scan of \<^verbatim>\<open>remove_order\<close>: the first order with the id is taken out; the result is
  that order and the remaining queue, or \<open>None\<close> when the scan reaches the end.
\<close>

fun erase_first :: "OrderId \<Rightarrow> Order list \<Rightarrow> (Order \<times> Order list) option" where
  "erase_first oid [] = None"
| "erase_first oid (x # xs) =
     (if o_id x = oid then Some (x, xs)
      else (case erase_first oid xs of
              None \<Rightarrow> None
            | Some (r, ys) \<Rightarrow> Some (r, x # ys)))"

definition remove_order :: "OrderId \<Rightarrow> OrderBookPriceLevel \<Rightarrow> (Order \<times> OrderBookPriceLevel) option" where
  "remove_order oid lvl =
     (case erase_first oid (orders lvl) of
        None \<Rightarrow> None
      | Some (r, ys) \<Rightarrow>
          Some (r, lvl\<lparr>orders := ys,
                       total_quantity := wrap64 (total_quantity lvl - o_quantity r)\<rparr>))"

text \<open>
  \<^verbatim>\<open>consume_order\<close> returns its flag together with the order written to the out
  parameter and the updated level; \<open>None\<close> is the call on an empty queue, which
  returns false and writes nothing.
\<close>

definition consume_order ::
  "Qty \<Rightarrow> OrderBookPriceLevel \<Rightarrow> (bool \<times> Order \<times> OrderBookPriceLevel) option" where
  "consume_order quantity lvl =
     (case orders lvl of
        [] \<Rightarrow> None
      | front_order # rest \<Rightarrow>
          if o_quantity front_order \<le> quantity
          then Some (True, front_order,
                     lvl\<lparr>orders := rest,
                         total_quantity := wrap64 (total_quantity lvl - o_quantity front_order)\<rparr>)
          else Some (False, front_order\<lparr>o_quantity := quantity\<rparr>,
                     lvl\<lparr>orders := front_order\<lparr>o_quantity := o_quantity front_order - quantity\<rparr> # rest,
                         total_quantity := wrap64 (total_quantity lvl - quantity)\<rparr>))"

section \<open>OrderBook (order_book.hpp, order_book.cpp)\<close>

text \<open>
  A \<^verbatim>\<open>std::map\<close> of price levels is the list of its entries in iteration order:
  descending prices for \<^verbatim>\<open>buy_levels_\<close> (\<^verbatim>\<open>std::greater\<close>), ascending for
  \<^verbatim>\<open>sell_levels_\<close>. The \<^verbatim>\<open>unordered_map\<close> \<^verbatim>\<open>order_lookup_\<close> is a partial function.
\<close>

type_synonym Levels = "(Price \<times> OrderBookPriceLevel) list"

record OrderBook =
  buy_levels :: Levels
  sell_levels :: Levels
  order_lookup :: "OrderId \<rightharpoonup> Price \<times> Side"
  order_count :: int
  last_trade_price :: Price
  total_volume :: Qty
  trade_count :: int

definition init_book :: OrderBook where
  "init_book = \<lparr>buy_levels = [], sell_levels = [], order_lookup = Map.empty,
                order_count = 0, last_trade_price = 0, total_volume = 0, trade_count = 0\<rparr>"

text \<open>
  \<^verbatim>\<open>levels[price].add_order(order)\<close>: \<open>lt\<close> is the comparator of the map;
  an absent key gets a fresh level at its place in the order.
\<close>

fun level_add :: "(Price \<Rightarrow> Price \<Rightarrow> bool) \<Rightarrow> Order \<Rightarrow> Levels \<Rightarrow> Levels" where
  "level_add lt ord [] = [(o_price ord, add_order ord empty_level)]"
| "level_add lt ord ((k, lvl) # rest) =
     (if k = o_price ord then (k, add_order ord lvl) # rest
      else if lt (o_price ord) k then (o_price ord, add_order ord empty_level) # (k, lvl) # rest
      else (k, lvl) # level_add lt ord rest)"

definition add_limit_order_to_side :: "Order \<Rightarrow> OrderBook \<Rightarrow> bool \<times> OrderBook" where
  "add_limit_order_to_side ord b =
     (let b1 = (if o_side ord = BUY
                then b\<lparr>buy_levels := level_add (\<lambda>x y. x > y) ord (buy_levels b)\<rparr>
                else b\<lparr>sell_levels := level_add (\<lambda>x y. x < y) ord (sell_levels b)\<rparr>)
      in (True, b1\<lparr>order_lookup := (order_lookup b1)(o_id ord \<mapsto> (o_price ord, o_side ord)),
                   order_count := order_count b1 + 1\<rparr>))"

definition add_limit_order :: "Order \<Rightarrow> OrderBook \<Rightarrow> bool \<times> OrderBook" where
  "add_limit_order ord b =
     (if \<not> is_valid_price (o_price ord) \<or> \<not> is_valid_quantity (o_quantity ord)
      then (False, b)
      else add_limit_order_to_side ord b)"

text \<open>
  The inner \<^verbatim>\<open>while\<close> loop of the two matchers, on one price level. The loop state is
  the level, \<^verbatim>\<open>remaining_qty\<close>, \<^verbatim>\<open>trades\<close> and the members of the book it writes.
  In the partial-fill branch the statistics are updated after \<^verbatim>\<open>remaining_qty = 0\<close>,
  so \<^verbatim>\<open>total_volume_ += remaining_qty\<close> adds the new value of the variable.
  \<^verbatim>\<open>consume_order\<close> is only called on a queue that is not empty, so its \<open>None\<close>
  result does not occur; the model leaves the loop state as it is there.
\<close>

function match_level ::
  "Price \<Rightarrow> OrderId \<Rightarrow> Timestamp \<Rightarrow> OrderBookPriceLevel \<Rightarrow> Qty \<Rightarrow> Trade list \<Rightarrow> OrderBook
     \<Rightarrow> OrderBookPriceLevel \<times> Qty \<times> Trade list \<times> OrderBook" where
  "match_level price taker ts level remaining_qty trades b =
     (if orders level \<noteq> [] \<and> remaining_qty > 0 then
        (case consume_order remaining_qty level of
           None \<Rightarrow> (level, remaining_qty, trades, b)
         | Some (fully_consumed, maker_order, level') \<Rightarrow>
             if fully_consumed then
               match_level price taker ts level'
                 (remaining_qty - o_quantity maker_order)
                 (trades @ [\<lparr>maker_id = o_id maker_order, taker_id = taker, t_price = price,
                             t_quantity = o_quantity maker_order, t_timestamp = ts\<rparr>])
                 (b\<lparr>order_lookup := (order_lookup b)(o_id maker_order := None),
                    order_count := order_count b - 1,
                    last_trade_price := price,
                    total_volume := wrap64 (total_volume b + o_quantity maker_order),
                    trade_count := trade_count b + 1\<rparr>)
             else
               (let trades' = trades @ [\<lparr>maker_id = o_id maker_order, taker_id = taker,
                                         t_price = price, t_quantity = remaining_qty,
                                         t_timestamp = ts\<rparr>];
                    remaining_qty' = 0
                in match_level price taker ts level' remaining_qty' trades'
                     (b\<lparr>last_trade_price := price,
                        total_volume := wrap64 (total_volume b + remaining_qty'),
                        trade_count := trade_count b + 1\<rparr>)))
      else (level, remaining_qty, trades, b))"
  by pat_completeness auto
termination
  by (relation "measure (\<lambda>(price, taker, ts, level, remaining_qty, trades, b).
        length (orders level) + (if remaining_qty > 0 then 1 else 0))")
     (auto simp: consume_order_def split: list.splits if_splits)

declare match_level.simps [simp del]

text \<open>
  The outer \<^verbatim>\<open>for\<close> loop over the map being walked, best price first; a level
  left empty is erased, the others stay in place.
\<close>

fun match_levels ::
  "OrderId \<Rightarrow> Timestamp \<Rightarrow> Levels \<Rightarrow> Qty \<Rightarrow> Trade list \<Rightarrow> OrderBook
     \<Rightarrow> Levels \<times> Qty \<times> Trade list \<times> OrderBook" where
  "match_levels taker ts [] remaining_qty trades b = ([], remaining_qty, trades, b)"
| "match_levels taker ts ((price, level) # rest) remaining_qty trades b =
     (if remaining_qty > 0 then
        (case match_level price taker ts level remaining_qty trades b of
           (level', remaining_qty', trades', b') \<Rightarrow>
             if orders level' = [] then match_levels taker ts rest remaining_qty' trades' b'
             else (case match_levels taker ts rest remaining_qty' trades' b' of
                     (rest', r) \<Rightarrow> ((price, level') # rest', r)))
      else ((price, level) # rest, remaining_qty, trades, b))"

definition match_market_order_buy ::
  "Qty \<Rightarrow> OrderId \<Rightarrow> Timestamp \<Rightarrow> OrderBook \<Rightarrow> Trade list \<times> OrderBook" where
  "match_market_order_buy quantity taker ts b =
     (case match_levels taker ts (sell_levels b) quantity [] b of
        (levels', remaining_qty, trades, b') \<Rightarrow> (trades, b'\<lparr>sell_levels := levels'\<rparr>))"

definition match_market_order_sell ::
  "Qty \<Rightarrow> OrderId \<Rightarrow> Timestamp \<Rightarrow> OrderBook \<Rightarrow> Trade list \<times> OrderBook" where
  "match_market_order_sell quantity taker ts b =
     (case match_levels taker ts (buy_levels b) quantity [] b of
        (levels', remaining_qty, trades, b') \<Rightarrow> (trades, b'\<lparr>buy_levels := levels'\<rparr>))"

definition add_market_order ::
  "Side \<Rightarrow> Qty \<Rightarrow> OrderId \<Rightarrow> Timestamp \<Rightarrow> OrderBook \<Rightarrow> Trade list \<times> OrderBook" where
  "add_market_order side quantity taker ts b =
     (if side = BUY then match_market_order_buy quantity taker ts b
      else match_market_order_sell quantity taker ts b)"

text \<open>
  \<^verbatim>\<open>find(price)\<close>, \<^verbatim>\<open>remove_order\<close> and the erasure of an emptied level, on one side.
  The flag says whether an order was removed.
\<close>

fun level_remove :: "OrderId \<Rightarrow> Price \<Rightarrow> Levels \<Rightarrow> bool \<times> Levels" where
  "level_remove oid price [] = (False, [])"
| "level_remove oid price ((k, lvl) # rest) =
     (if k = price then
        (case remove_order oid lvl of
           None \<Rightarrow> (False, (k, lvl) # rest)
         | Some (removed_order, lvl') \<Rightarrow>
             (True, if orders lvl' = [] then rest else (k, lvl') # rest))
      else (case level_remove oid price rest of (r, rest') \<Rightarrow> (r, (k, lvl) # rest')))"

definition remove_order_from_side :: "OrderId \<Rightarrow> Price \<Rightarrow> Side \<Rightarrow> OrderBook \<Rightarrow> OrderBook" where
  "remove_order_from_side oid price side b =
     (if side = BUY then
        (case level_remove oid price (buy_levels b) of
           (True, ls) \<Rightarrow> b\<lparr>buy_levels := ls,
                           order_lookup := (order_lookup b)(oid := None),
                           order_count := order_count b - 1\<rparr>
         | (False, ls) \<Rightarrow> b)
      else
        (case level_remove oid price (sell_levels b) of
           (True, ls) \<Rightarrow> b\<lparr>sell_levels := ls,
                           order_lookup := (order_lookup b)(oid := None),
                           order_count := order_count b - 1\<rparr>
         | (False, ls) \<Rightarrow> b))"

definition cancel_order :: "OrderId \<Rightarrow> OrderBook \<Rightarrow> bool \<times> OrderBook" where
  "cancel_order oid b =
     (case order_lookup b oid of
        None \<Rightarrow> (False, b)
      | Some (price, side) \<Rightarrow> (True, remove_order_from_side oid price side b))"

definition best_bid_price :: "OrderBook \<Rightarrow> Price option" where
  "best_bid_price b = (case buy_levels b of [] \<Rightarrow> None | (p, lvl) # rest \<Rightarrow> Some p)"

definition best_bid_quantity :: "OrderBook \<Rightarrow> Qty option" where
  "best_bid_quantity b =
     (case buy_levels b of [] \<Rightarrow> None | (p, lvl) # rest \<Rightarrow> Some (total_quantity lvl))"

definition best_ask_price :: "OrderBook \<Rightarrow> Price option" where
  "best_ask_price b = (case sell_levels b of [] \<Rightarrow> None | (p, lvl) # rest \<Rightarrow> Some p)"

definition best_ask_quantity :: "OrderBook \<Rightarrow> Qty option" where
  "best_ask_quantity b =
     (case sell_levels b of [] \<Rightarrow> None | (p, lvl) # rest \<Rightarrow> Some (total_quantity lvl))"

definition clear :: "OrderBook \<Rightarrow> OrderBook" where
  "clear b = b\<lparr>buy_levels := [], sell_levels := [], order_lookup := Map.empty,
               order_count := 0, last_trade_price := 0, total_volume := 0, trade_count := 0\<rparr>"

section \<open>MatchingEngine (matching_engine.hpp, matching_engine.cpp)\<close>

text \<open>
  The engine's state is its \<^verbatim>\<open>order_book_\<close>; the two observer callbacks receive
  values and do not act on the book, and the member \<^verbatim>\<open>trades_\<close> is never written.
  \<^verbatim>\<open>EventType\<close> has the three enumerators below; the \<^verbatim>\<open>default\<close> branch of
  \<^verbatim>\<open>process_event\<close>, for a value outside the enumeration, returns no trade and
  leaves the book alone.
\<close>

record Event =
  e_type :: EventType
  e_order_id :: OrderId
  e_side :: Side
  e_price :: Price
  e_quantity :: Qty
  e_timestamp :: Timestamp
  e_agent_id :: OrderId

definition process_limit_order :: "Event \<Rightarrow> OrderBook \<Rightarrow> Trade list \<times> OrderBook" where
  "process_limit_order event b =
     (let ord = \<lparr>o_id = e_order_id event, o_side = e_side event, o_price = e_price event,
                 o_quantity = e_quantity event, o_timestamp = e_timestamp event\<rparr>
      in case add_limit_order ord b of
           (False, b1) \<Rightarrow> ([], b1)
         | (True, b1) \<Rightarrow>
             if e_side event = BUY then
               (case best_ask_price b1 of
                  None \<Rightarrow> ([], b1)
                | Some best_ask \<Rightarrow>
                    if e_price event \<ge> best_ask
                    then add_market_order SELL (e_quantity event) (e_order_id event)
                           (e_timestamp event) b1
                    else ([], b1))
             else
               (case best_bid_price b1 of
                  None \<Rightarrow> ([], b1)
                | Some best_bid \<Rightarrow>
                    if e_price event \<le> best_bid
                    then add_market_order BUY (e_quantity event) (e_order_id event)
                           (e_timestamp event) b1
                    else ([], b1)))"

definition process_market_order :: "Event \<Rightarrow> OrderBook \<Rightarrow> Trade list \<times> OrderBook" where
  "process_market_order event b =
     add_market_order (e_side event) (e_quantity event) (e_order_id event) (e_timestamp event) b"

definition process_cancel_order :: "Event \<Rightarrow> OrderBook \<Rightarrow> Trade list \<times> OrderBook" where
  "process_cancel_order event b = ([], snd (cancel_order (e_order_id event) b))"

definition process_event :: "Event \<Rightarrow> OrderBook \<Rightarrow> Trade list \<times> OrderBook" where
  "process_event event b =
     (case e_type event of
        LIMIT \<Rightarrow> process_limit_order event b
      | MARKET \<Rightarrow> process_market_order event b
      | CANCEL \<Rightarrow> process_cancel_order event b)"

fun process_events :: "Event list \<Rightarrow> OrderBook \<Rightarrow> Trade list \<times> OrderBook" where
  "process_events [] b = ([], b)"
| "process_events (event # events) b =
     (case process_event event b of
        (trades, b1) \<Rightarrow>
          (case process_events events b1 of
             (all_trades, b2) \<Rightarrow> (trades @ all_trades, b2)))"

section \<open>Sequences of operations\<close>

text \<open>
  The public mutating operations of \<^verbatim>\<open>OrderBook\<close>. A state is reachable when it is
  \<open>run ops init_book\<close> for some list of operations.
\<close>

datatype Op =
    AddLimitOrder Order
  | AddMarketOrder Side Qty OrderId Timestamp
  | CancelOrder OrderId
  | Clear

fun apply_op :: "Op \<Rightarrow> OrderBook \<Rightarrow> Trade list \<times> OrderBook" where
  "apply_op (AddLimitOrder ord) b = ([], snd (add_limit_order ord b))"
| "apply_op (AddMarketOrder side quantity taker ts) b = add_market_order side quantity taker ts b"
| "apply_op (CancelOrder oid) b = ([], snd (cancel_order oid b))"
| "apply_op Clear b = ([], clear b)"

fun run :: "Op list \<Rightarrow> OrderBook \<Rightarrow> OrderBook" where
  "run [] b = b"
| "run (op # ops) b = run ops (snd (apply_op op b))"

section \<open>Scenarios of the specification\<close>

text \<open>Scenario S1: a resting sell of 50 at 10002, then a market buy of 30.\<close>

definition s1_events :: "Event list" where
  "s1_events =
     [\<lparr>e_type = LIMIT, e_order_id = 1, e_side = SELL, e_price = 10002, e_quantity = 50,
        e_timestamp = 1000, e_agent_id = 1\<rparr>,
      \<lparr>e_type = MARKET, e_order_id = 2, e_side = BUY, e_price = 0, e_quantity = 30,
        e_timestamp = 1001, e_agent_id = 2\<rparr>]"

definition s1_book :: OrderBook where
  "s1_book = snd (process_events s1_events init_book)"

text \<open>Scenario S4: the marketable limit buy submitted to the book S1 leaves.\<close>

definition s4_event :: Event where
  "s4_event = \<lparr>e_type = LIMIT, e_order_id = 10, e_side = BUY, e_price = 10005,
               e_quantity = 15, e_timestamp = 1100, e_agent_id = 3\<rparr>"

text \<open>A resting buy order with id 1, and a second order that reuses the id.\<close>

definition bid_1 :: Order where
  "bid_1 = \<lparr>o_id = 1, o_side = BUY, o_price = 10000, o_quantity = 50, o_timestamp = 1\<rparr>"

definition bid_1_again :: Order where
  "bid_1_again = \<lparr>o_id = 1, o_side = BUY, o_price = 10000, o_quantity = 60, o_timestamp = 2\<rparr>"

definition bid_2 :: Order where
  "bid_2 = \<lparr>o_id = 2, o_side = BUY, o_price = 10000, o_quantity = 60, o_timestamp = 2\<rparr>"

definition ask_1 :: Order where
  "ask_1 = \<lparr>o_id = 1, o_side = SELL, o_price = 10002, o_quantity = 50, o_timestamp = 1000\<rparr>"

text \<open>Scenario S2: two ask levels. Scenarios S3 and S5: two bids at one price.\<close>

definition s2_ops :: "Op list" where
  "s2_ops =
     [AddLimitOrder \<lparr>o_id = 1, o_side = SELL, o_price = 10002, o_quantity = 40, o_timestamp = 1000\<rparr>,
      AddLimitOrder \<lparr>o_id = 2, o_side = SELL, o_price = 10003, o_quantity = 50, o_timestamp = 1000\<rparr>]"

definition s3_ops :: "Op list" where
  "s3_ops = [AddLimitOrder bid_1, AddLimitOrder bid_2]"

text \<open>A resting sell of 50, taken whole or in part by a market buy.\<close>

definition full_fill_ops :: "Op list" where
  "full_fill_ops = [AddLimitOrder ask_1, AddMarketOrder BUY 50 2 1001]"

definition partial_fill_ops :: "Op list" where
  "partial_fill_ops = [AddLimitOrder ask_1, AddMarketOrder BUY 30 2 1001]"

text \<open>Two bids at one price under different ids, then a cancel of the first.\<close>

definition fresh_id_ops :: "Op list" where
  "fresh_id_ops = [AddLimitOrder bid_1, AddLimitOrder bid_2, CancelOrder 1]"

text \<open>The largest value of \<^verbatim>\<open>Qty\<close>, and orders that carry it.\<close>

definition int64_max :: int where
  "int64_max = 9223372036854775807"

definition big_ask_1 :: Order where
  "big_ask_1 = \<lparr>o_id = 1, o_side = SELL, o_price = 10002, o_quantity = int64_max,
                 o_timestamp = 2000\<rparr>"

definition big_ask_4 :: Order where
  "big_ask_4 = \<lparr>o_id = 4, o_side = SELL, o_price = 10002, o_quantity = int64_max,
                 o_timestamp = 2002\<rparr>"

definition big_bid_1 :: Order where
  "big_bid_1 = \<lparr>o_id = 1, o_side = BUY, o_price = 10000, o_quantity = int64_max,
                 o_timestamp = 1\<rparr>"

definition big_bid_1_again :: Order where
  "big_bid_1_again = \<lparr>o_id = 1, o_side = BUY, o_price = 10000, o_quantity = int64_max,
                       o_timestamp = 2\<rparr>"

definition big_bid_2 :: Order where
  "big_bid_2 = \<lparr>o_id = 2, o_side = BUY, o_price = 10000, o_quantity = int64_max,
                 o_timestamp = 3\<rparr>"

text \<open>
  A full fill and a \<^verbatim>\<open>clear\<close>, followed by two full fills of the largest quantity;
  and three admissions of the largest quantity at one price, two of them under the
  same id, followed by a market sell that takes the first.
\<close>

definition full_fill_then_clear :: "Op list" where
  "full_fill_then_clear = [AddLimitOrder ask_1, AddMarketOrder BUY 50 2 1001, Clear]"

definition clear_then_two_big_fills :: "Op list" where
  "clear_then_two_big_fills =
     full_fill_then_clear
     @ [AddLimitOrder big_ask_1, AddMarketOrder BUY int64_max 3 2001,
        AddLimitOrder big_ask_4, AddMarketOrder BUY int64_max 5 2003]"

definition reused_id_big_orders :: "Op list" where
  "reused_id_big_orders =
     [AddLimitOrder big_bid_1, AddLimitOrder big_bid_1_again, AddLimitOrder big_bid_2,
      AddMarketOrder SELL int64_max 3 3000]"

text \<open>A bid at 10000 and an ask at 10002, submitted to the engine.\<close>

definition two_sided_events :: "Event list" where
  "two_sided_events =
     [\<lparr>e_type = LIMIT, e_order_id = 1, e_side = BUY, e_price = 10000, e_quantity = 100,
        e_timestamp = 1000, e_agent_id = 1\<rparr>,
      \<lparr>e_type = LIMIT, e_order_id = 2, e_side = SELL, e_price = 10002, e_quantity = 50,
        e_timestamp = 1001, e_agent_id = 2\<rparr>]"

section \<open>Views of the book used to state the claims\<close>

text \<open>
  The resting orders of one side, in the order the matcher walks them, and the
  entries \<open>(id, (price, side))\<close> the lookup index should hold for them: one per resting
  order, with the key of the level the order rests in.
\<close>

definition resting :: "Levels \<Rightarrow> Order list" where
  "resting ls = concat (map (\<lambda>(p, lvl). orders lvl) ls)"

definition level_entries ::
  "Side \<Rightarrow> Price \<Rightarrow> OrderBookPriceLevel \<Rightarrow> (OrderId \<times> (Price \<times> Side)) list" where
  "level_entries side p lvl = map (\<lambda>i. (i, (p, side))) (map o_id (orders lvl))"

definition entries :: "Side \<Rightarrow> Levels \<Rightarrow> (OrderId \<times> (Price \<times> Side)) list" where
  "entries side ls = concat (map (\<lambda>(p, lvl). level_entries side p lvl) ls)"

definition book_entries :: "OrderBook \<Rightarrow> (OrderId \<times> (Price \<times> Side)) list" where
  "book_entries b = entries BUY (buy_levels b) @ entries SELL (sell_levels b)"

text \<open>The invariants of reachable books.\<close>

definition level_ok :: "OrderBookPriceLevel \<Rightarrow> bool" where
  "level_ok lvl = (total_quantity lvl = wrap64 (sum_list (map o_quantity (orders lvl))))"

definition totals_ok :: "OrderBook \<Rightarrow> bool" where
  "totals_ok b = (list_all (\<lambda>(p, lvl). level_ok lvl) (buy_levels b)
                  \<and> list_all (\<lambda>(p, lvl). level_ok lvl) (sell_levels b))"

definition keys_sorted :: "OrderBook \<Rightarrow> bool" where
  "keys_sorted b = (sorted_wrt (\<lambda>x y. x > y) (map fst (buy_levels b))
                    \<and> sorted_wrt (\<lambda>x y. x < y) (map fst (sell_levels b)))"

definition lookup_sound :: "OrderBook \<Rightarrow> bool" where
  "lookup_sound b =
     (\<forall>oid p s. order_lookup b oid = Some (p, s) \<longrightarrow> (oid, (p, s)) \<in> set (book_entries b))"

definition index_ok :: "OrderBook \<Rightarrow> bool" where
  "index_ok b = (distinct (map fst (book_entries b))
                 \<and> order_lookup b = map_of (book_entries b)
                 \<and> order_count b = int (length (book_entries b)))"

text \<open>
  \<open>removes b b'\<close>: the step from \<open>b\<close> to \<open>b'\<close> takes a block of resting orders out of
  the book, erases their ids from the lookup index and counts them off.
\<close>

definition removes :: "OrderBook \<Rightarrow> OrderBook \<Rightarrow> bool" where
  "removes b b' = (\<exists>pre gone post.
       book_entries b = pre @ gone @ post \<and> book_entries b' = pre @ post
     \<and> order_lookup b' = order_lookup b |` (- set (map fst gone))
     \<and> order_count b' = order_count b - int (length gone))"

text \<open>
  \<open>ids_fresh ops b\<close>: run from \<open>b\<close>, every \<^verbatim>\<open>add_limit_order\<close> of \<open>ops\<close> carries an id
  that is not a key of the lookup index at the time of the call.
\<close>

fun ids_fresh :: "Op list \<Rightarrow> OrderBook \<Rightarrow> bool" where
  "ids_fresh [] b = True"
| "ids_fresh (op # ops) b =
     ((case op of AddLimitOrder ord \<Rightarrow> order_lookup b (o_id ord) = None | _ \<Rightarrow> True)
      \<and> ids_fresh ops (snd (apply_op op b)))"

text \<open>
  \<open>clips xs r\<close>: an aggressor of quantity \<open>r\<close> walking the queue \<open>xs\<close> runs out inside a
  resting order, that is, its last trade is a partial fill of its maker.
\<close>

fun clips :: "Order list \<Rightarrow> Qty \<Rightarrow> bool" where
  "clips [] r = False"
| "clips (x # xs) r =
     (if r \<le> 0 then False
      else if o_quantity x \<le> r then clips xs (r - o_quantity x)
      else True)"

text \<open>
  The value of \<^verbatim>\<open>total_volume_\<close> after the quantities \<open>qs\<close> have been added to it one
  by one, and the invariant that every resting order has a positive residual.
\<close>

definition add_volume :: "Qty \<Rightarrow> Qty list \<Rightarrow> Qty" where
  "add_volume v qs = foldl (\<lambda>v q. wrap64 (v + q)) v qs"

definition residuals_positive :: "OrderBook \<Rightarrow> bool" where
  "residuals_positive b =
     (\<forall>x\<in>set (resting (buy_levels b)) \<union> set (resting (sell_levels b)). 0 < o_quantity x)"

text \<open>The levels an aggressor of the given side walks.\<close>

definition opposite_levels :: "Side \<Rightarrow> OrderBook \<Rightarrow> Levels" where
  "opposite_levels side b = (if side = BUY then sell_levels b else buy_levels b)"

text \<open>
  The trades the book has returned: all of them, those since the last \<^verbatim>\<open>clear\<close>,
  and whether one of the latter was a partial fill of its maker.
\<close>

fun all_trades :: "Op list \<Rightarrow> OrderBook \<Rightarrow> Trade list" where
  "all_trades [] b = []"
| "all_trades (op # ops) b = fst (apply_op op b) @ all_trades ops (snd (apply_op op b))"

fun trades_since_clear :: "Op list \<Rightarrow> OrderBook \<Rightarrow> Trade list \<Rightarrow> Trade list" where
  "trades_since_clear [] b acc = acc"
| "trades_since_clear (op # ops) b acc =
     trades_since_clear ops (snd (apply_op op b))
       (case op of Clear \<Rightarrow> [] | _ \<Rightarrow> acc @ fst (apply_op op b))"

fun partial_fill_since_clear :: "Op list \<Rightarrow> OrderBook \<Rightarrow> bool \<Rightarrow> bool" where
  "partial_fill_since_clear [] b acc = acc"
| "partial_fill_since_clear (op # ops) b acc =
     partial_fill_since_clear ops (snd (apply_op op b))
       (case op of
          Clear \<Rightarrow> False
        | AddMarketOrder side quantity taker ts \<Rightarrow>
            acc \<or> clips (resting (opposite_levels side b)) quantity
        | _ \<Rightarrow> acc)"

definition stats_track :: "OrderBook \<Rightarrow> Trade list \<Rightarrow> bool" where
  "stats_track b acc =
     (trade_count b = int (length acc)
      \<and> last_trade_price b = (if acc = [] then 0 else t_price (last acc)))"

text \<open>The entries of the orders that \<^verbatim>\<open>add_limit_order\<close> admits along a run.\<close>

definition admitted :: "Op list \<Rightarrow> (OrderId \<times> (Price \<times> Side)) set" where
  "admitted ops = {(o_id ord, (o_price ord, o_side ord)) | ord.
       AddLimitOrder ord \<in> set ops \<and> is_valid_price (o_price ord) \<and> is_valid_quantity (o_quantity ord)}"

text \<open>
  The orders for which \<^verbatim>\<open>add_limit_order\<close> returned true along a run, in call order;
  the ids of those admitted on one side at one price; and the invariant that the
  queue of every level lists, in order, ids that were admitted on its side at its
  price, in the order of the calls.
\<close>

fun admissions :: "Op list \<Rightarrow> OrderBook \<Rightarrow> Order list" where
  "admissions [] b = []"
| "admissions (op # ops) b =
     (case op of
        AddLimitOrder ord \<Rightarrow> if fst (add_limit_order ord b) then [ord] else []
      | _ \<Rightarrow> [])
     @ admissions ops (snd (apply_op op b))"

definition admitted_at :: "Side \<Rightarrow> Price \<Rightarrow> Order list \<Rightarrow> OrderId list" where
  "admitted_at s p xs = map o_id (filter (\<lambda>x. o_side x = s \<and> o_price x = p) xs)"

definition queue_history :: "OrderBook \<Rightarrow> Order list \<Rightarrow> bool" where
  "queue_history b adm =
     ((\<forall>(p, lvl)\<in>set (buy_levels b). subseq (map o_id (orders lvl)) (admitted_at BUY p adm))
      \<and> (\<forall>(p, lvl)\<in>set (sell_levels b). subseq (map o_id (orders lvl)) (admitted_at SELL p adm)))"

text \<open>Every bid level lies below every ask level; the keys of one book among those of another.\<close>

definition uncrossed :: "OrderBook \<Rightarrow> bool" where
  "uncrossed b = (\<forall>bp\<in>fst ` set (buy_levels b). \<forall>ap\<in>fst ` set (sell_levels b). bp < ap)"

definition key_subset :: "OrderBook \<Rightarrow> OrderBook \<Rightarrow> bool" where
  "key_subset b' b = (set (map fst (buy_levels b')) \<subseteq> set (map fst (buy_levels b))
                      \<and> set (map fst (sell_levels b')) \<subseteq> set (map fst (sell_levels b)))"

section \<open>Evaluation rules for the matcher\<close>

lemma wrap64_id:
  "- 9223372036854775808 \<le> x \<Longrightarrow> x < 9223372036854775808 \<Longrightarrow> wrap64 x = x"
  by (simp add: wrap64_def)

lemma wrap64_range:
  "- 9223372036854775808 \<le> wrap64 x \<and> wrap64 x < 9223372036854775808"
  by (simp add: wrap64_def)

lemma wrap64_idem [simp]: "wrap64 (wrap64 x) = wrap64 x"
  using wrap64_range[of x] by (simp add: wrap64_id)

lemma wrap64_add_left [simp]: "wrap64 (wrap64 a + b) = wrap64 (a + b)"
  by (simp add: wrap64_def algebra_simps mod_simps)

lemma wrap64_add_right [simp]: "wrap64 (a + wrap64 b) = wrap64 (a + b)"
  by (simp add: wrap64_def algebra_simps mod_simps)

lemma wrap64_diff_left [simp]: "wrap64 (wrap64 a - b) = wrap64 (a - b)"
  by (simp add: wrap64_def algebra_simps mod_simps)

lemma wrap64_zero [simp]: "wrap64 0 = 0"
  by (simp add: wrap64_def)

lemma match_level_Nil:
  "match_level p tk ts \<lparr>orders = [], total_quantity = tq\<rparr> r tr b
     = (\<lparr>orders = [], total_quantity = tq\<rparr>, r, tr, b)"
  by (simp add: match_level.simps)

lemma match_level_stop:
  "r \<le> 0 \<Longrightarrow> match_level p tk ts lvl r tr b = (lvl, r, tr, b)"
  by (simp add: match_level.simps)

lemma match_level_Cons:
  "match_level p tk ts \<lparr>orders = x # xs, total_quantity = tq\<rparr> r tr b =
     (if 0 < r then
        (if o_quantity x \<le> r then
           match_level p tk ts \<lparr>orders = xs, total_quantity = wrap64 (tq - o_quantity x)\<rparr>
             (r - o_quantity x)
             (tr @ [\<lparr>maker_id = o_id x, taker_id = tk, t_price = p,
                     t_quantity = o_quantity x, t_timestamp = ts\<rparr>])
             (b\<lparr>order_lookup := (order_lookup b)(o_id x := None),
                order_count := order_count b - 1,
                last_trade_price := p,
                total_volume := wrap64 (total_volume b + o_quantity x),
                trade_count := trade_count b + 1\<rparr>)
         else
           (\<lparr>orders = x\<lparr>o_quantity := o_quantity x - r\<rparr> # xs,
             total_quantity = wrap64 (tq - r)\<rparr>,
            0,
            tr @ [\<lparr>maker_id = o_id x, taker_id = tk, t_price = p,
                    t_quantity = r, t_timestamp = ts\<rparr>],
            b\<lparr>last_trade_price := p, total_volume := wrap64 (total_volume b),
              trade_count := trade_count b + 1\<rparr>))
      else (\<lparr>orders = x # xs, total_quantity = tq\<rparr>, r, tr, b))"
  apply (subst match_level.simps)
  apply (simp add: consume_order_def Let_def)
  apply (simp add: match_level.simps)
  done

lemma match_levels_stop:
  "r \<le> 0 \<Longrightarrow> match_levels tk ts ls r tr b = (ls, r, tr, b)"
  by (cases ls) auto

lemmas book_defs =
  add_limit_order_def add_limit_order_to_side_def is_valid_price_def is_valid_quantity_def
  add_market_order_def match_market_order_buy_def match_market_order_sell_def
  cancel_order_def remove_order_from_side_def remove_order_def
  best_bid_price_def best_ask_price_def best_bid_quantity_def best_ask_quantity_def
  add_order_def empty_level_def init_book_def clear_def wrap64_def
  match_level_Nil match_level_Cons Let_def

lemmas engine_defs =
  process_event_def process_limit_order_def process_market_order_def process_cancel_order_def

lemma s1_book_eq:
  "s1_book =
     \<lparr>buy_levels = [],
      sell_levels = [(10002, \<lparr>orders = [\<lparr>o_id = 1, o_side = SELL, o_price = 10002,
                                          o_quantity = 20, o_timestamp = 1000\<rparr>],
                              total_quantity = 20\<rparr>)],
      order_lookup = [1 \<mapsto> (10002, SELL)],
      order_count = 1, last_trade_price = 10002, total_volume = 0, trade_count = 1\<rparr>"
  by (simp add: s1_book_def s1_events_def engine_defs book_defs)

section \<open>The inner loop on one level\<close>

lemma entries_Nil [simp]: "entries side [] = []"
  by (simp add: entries_def)

lemma entries_Cons [simp]:
  "entries side ((p, lvl) # ls) = level_entries side p lvl @ entries side ls"
  by (simp add: entries_def)

lemma level_entries_keys [simp]: "map fst (level_entries side p lvl) = map o_id (orders lvl)"
  by (simp add: level_entries_def comp_def)

lemma level_entries_length [simp]: "length (level_entries side p lvl) = length (orders lvl)"
  by (simp add: level_entries_def)

lemma level_entries_set:
  "set (level_entries side p lvl) = (\<lambda>x. (o_id x, (p, side))) ` set (orders lvl)"
  by (auto simp: level_entries_def)

lemma level_entries_mem:
  "(i, (q, s)) \<in> set (level_entries side p lvl) \<longleftrightarrow> i \<in> o_id ` set (orders lvl) \<and> q = p \<and> s = side"
  by (auto simp: level_entries_def)

lemma level_entries_drop:
  "map o_id (orders l) = drop k (map o_id (orders lvl))
     \<Longrightarrow> level_entries side p l = drop k (level_entries side p lvl)"
  by (simp add: level_entries_def drop_map)

lemma level_entries_add_order [simp]:
  "level_entries side p (add_order ord lvl) = level_entries side p lvl @ [(o_id ord, (p, side))]"
  by (simp add: level_entries_def add_order_def)

lemma level_entries_empty [simp]: "level_entries side p empty_level = []"
  by (simp add: level_entries_def empty_level_def)

lemma level_entries_Nil [simp]: "orders lvl = [] \<Longrightarrow> level_entries side p lvl = []"
  by (simp add: level_entries_def)

lemma match_level_append:
  "match_level p tk ts \<lparr>orders = xs, total_quantity = tq\<rparr> r [] b = (l, r', new, b')
   \<Longrightarrow> match_level p tk ts \<lparr>orders = xs, total_quantity = tq\<rparr> r tr b = (l, r', tr @ new, b')"
proof (induction xs arbitrary: tq r tr b new l r' b')
  case Nil
  then show ?case by (auto simp add: match_level_Nil)
next
  case (Cons x xs)
  show ?case
  proof (cases "0 < r \<and> o_quantity x \<le> r")
    case True
    let ?t = "\<lparr>maker_id = o_id x, taker_id = tk, t_price = p,
                     t_quantity = o_quantity x, t_timestamp = ts\<rparr>"
    let ?b = "b\<lparr>order_lookup := (order_lookup b)(o_id x := None),
                order_count := order_count b - 1,
                last_trade_price := p,
                total_volume := wrap64 (total_volume b + o_quantity x),
                trade_count := trade_count b + 1\<rparr>"
    obtain l0 r0 n0 b0 where m0: "match_level p tk ts \<lparr>orders = xs, total_quantity = wrap64 (tq - o_quantity x)\<rparr> (r - o_quantity x) [] ?b = (l0, r0, n0, b0)"
      using prod_cases4 by blast
    from Cons.IH[OF m0, of "[?t]"] Cons.prems True
    have eq: "l = l0" "r' = r0" "new = ?t # n0" "b' = b0"
      by (simp_all add: match_level_Cons)
    from Cons.IH[OF m0, of "tr @ [?t]"] True show ?thesis
      by (simp add: match_level_Cons eq)
  next
    case False
    with Cons.prems show ?thesis
      by (auto simp add: match_level_Cons split: if_splits)
  qed
qed

lemma match_level_exit:
  "match_level p tk ts \<lparr>orders = xs, total_quantity = tq\<rparr> r tr b = (l, r', tr', b')
   \<Longrightarrow> orders l = [] \<or> r' \<le> 0"
  by (induction xs arbitrary: tq r tr b l r' tr' b') (auto simp: match_level_Nil match_level_Cons split: if_splits)

lemma match_level_index:
  "match_level p tk ts \<lparr>orders = xs, total_quantity = tq\<rparr> r tr b = (l, r', tr', b')
   \<Longrightarrow> \<exists>k\<le>length xs. map o_id (orders l) = drop k (map o_id xs)
        \<and> order_lookup b' = order_lookup b |` (- set (take k (map o_id xs)))
        \<and> order_count b' = order_count b - int k
        \<and> buy_levels b' = buy_levels b \<and> sell_levels b' = sell_levels b"
proof (induction xs arbitrary: tq r tr b l r' tr' b')
  case Nil
  then show ?case by (auto simp add: match_level_Nil)
next
  case (Cons x xs)
  show ?case
  proof (cases "0 < r \<and> o_quantity x \<le> r")
    case True
    with Cons.prems Cons.IH obtain k where k: "k \<le> length xs" "map o_id (orders l) = drop k (map o_id xs)"
      "order_lookup b' = ((order_lookup b)(o_id x := None)) |` (- set (take k (map o_id xs)))"
      "order_count b' = order_count b - 1 - int k"
      "buy_levels b' = buy_levels b" "sell_levels b' = sell_levels b"
      by (fastforce simp: match_level_Cons)
    have "((order_lookup b)(o_id x := None)) |` (- set (take k (map o_id xs)))
        = order_lookup b |` (- set (take (Suc k) (map o_id (x # xs))))"
      by (auto simp: restrict_map_def fun_eq_iff)
    with k show ?thesis
      by (intro exI[of _ "Suc k"]) simp
  next
    case False
    with Cons.prems show ?thesis
      by (intro exI[of _ 0]) (auto simp add: match_level_Cons split: if_splits)
  qed
qed

lemma match_level_total:
  "match_level p tk ts \<lparr>orders = xs, total_quantity = tq\<rparr> r tr b = (l, r', tr', b')
   \<Longrightarrow> level_ok \<lparr>orders = xs, total_quantity = tq\<rparr> \<Longrightarrow> level_ok l"
proof (induction xs arbitrary: tq r tr b l r' tr' b')
  case Nil
  then show ?case by (auto simp: match_level_Nil)
next
  case (Cons x xs)
  from Cons.prems(2) have tq: "tq = wrap64 (o_quantity x + sum_list (map o_quantity xs))"
    by (simp add: level_ok_def)
  have full: "level_ok \<lparr>orders = xs, total_quantity = wrap64 (tq - o_quantity x)\<rparr>"
    by (simp add: level_ok_def tq)
  have part: "level_ok \<lparr>orders = x\<lparr>o_quantity := o_quantity x - r\<rparr> # xs,
                        total_quantity = wrap64 (tq - r)\<rparr>"
    by (simp add: level_ok_def tq algebra_simps)
  from Cons.prems(1) Cons.IH[OF _ full] part Cons.prems(2) show ?case
    by (auto simp: match_level_Cons split: if_splits)
qed

lemma match_level_trades:
  "match_level p tk ts \<lparr>orders = xs, total_quantity = tq\<rparr> r [] b = (l, r', new, b')
   \<Longrightarrow> (\<forall>t\<in>set new. t_price t = p \<and> taker_id t = tk \<and> t_timestamp t = ts)
     \<and> prefix (map maker_id new) (map o_id xs)
     \<and> trade_count b' = trade_count b + int (length new)
     \<and> last_trade_price b' = (if new = [] then last_trade_price b else p)"
proof (induction xs arbitrary: tq r b new l r' b')
  case Nil
  then show ?case by (auto simp add: match_level_Nil)
next
  case (Cons x xs)
  show ?case
  proof (cases "0 < r \<and> o_quantity x \<le> r")
    case True
    let ?t = "\<lparr>maker_id = o_id x, taker_id = tk, t_price = p,
                     t_quantity = o_quantity x, t_timestamp = ts\<rparr>"
    let ?b = "b\<lparr>order_lookup := (order_lookup b)(o_id x := None),
                order_count := order_count b - 1,
                last_trade_price := p,
                total_volume := wrap64 (total_volume b + o_quantity x),
                trade_count := trade_count b + 1\<rparr>"
    obtain l0 r0 n0 b0 where m0: "match_level p tk ts \<lparr>orders = xs, total_quantity = wrap64 (tq - o_quantity x)\<rparr> (r - o_quantity x) [] ?b = (l0, r0, n0, b0)"
      using prod_cases4 by blast
    from match_level_append[OF m0, of "[?t]"] Cons.prems True
    have eq: "l = l0" "r' = r0" "new = ?t # n0" "b' = b0"
      by (simp_all add: match_level_Cons)
    from Cons.IH[OF m0] show ?thesis
      by (simp add: eq)
  next
    case False
    with Cons.prems show ?thesis
      by (auto simp add: match_level_Cons split: if_splits)
  qed
qed


section \<open>The outer loop over the levels\<close>

lemma level_literal: "\<lparr>orders = orders lvl, total_quantity = total_quantity lvl\<rparr> = (lvl::OrderBookPriceLevel)"
  by simp

lemma match_level_append':
  "match_level p tk ts lvl r [] b = (l, r', new, b')
   \<Longrightarrow> match_level p tk ts lvl r tr b = (l, r', tr @ new, b')"
  by (cases lvl) (use match_level_append[of p tk ts] in simp)

lemma match_level_exit':
  "match_level p tk ts lvl r tr b = (l, r', tr', b') \<Longrightarrow> orders l = [] \<or> r' \<le> 0"
  by (cases lvl) (use match_level_exit[of p tk ts] in simp)

lemma match_level_index':
  "match_level p tk ts lvl r tr b = (l, r', tr', b')
   \<Longrightarrow> \<exists>k\<le>length (orders lvl). map o_id (orders l) = drop k (map o_id (orders lvl))
        \<and> order_lookup b' = order_lookup b |` (- set (take k (map o_id (orders lvl))))
        \<and> order_count b' = order_count b - int k
        \<and> buy_levels b' = buy_levels b \<and> sell_levels b' = sell_levels b"
  by (cases lvl) (use match_level_index[of p tk ts] in simp)

lemma match_level_total':
  "match_level p tk ts lvl r tr b = (l, r', tr', b') \<Longrightarrow> level_ok lvl \<Longrightarrow> level_ok l"
  by (cases lvl) (use match_level_total[of p tk ts] in simp)

lemma match_level_trades':
  "match_level p tk ts lvl r [] b = (l, r', new, b')
   \<Longrightarrow> (\<forall>t\<in>set new. t_price t = p \<and> taker_id t = tk \<and> t_timestamp t = ts)
     \<and> prefix (map maker_id new) (map o_id (orders lvl))
     \<and> trade_count b' = trade_count b + int (length new)
     \<and> last_trade_price b' = (if new = [] then last_trade_price b else p)"
  by (cases lvl) (use match_level_trades[of p tk ts] in simp)

lemma match_levels_cases:
  assumes "match_levels tk ts ((p, lvl) # rest) r tr b = (ls', r', tr', b')"
  obtains
    (stop) "r \<le> 0" "ls' = (p, lvl) # rest" "r' = r" "tr' = tr" "b' = b"
  | (emptied) l1 r1 t1 b1 where "0 < r" "match_level p tk ts lvl r tr b = (l1, r1, t1, b1)"
      "orders l1 = []" "match_levels tk ts rest r1 t1 b1 = (ls', r', tr', b')"
  | (kept) l1 where "0 < r" "match_level p tk ts lvl r tr b = (l1, r', tr', b')"
      "orders l1 \<noteq> []" "r' \<le> 0" "ls' = (p, l1) # rest"
proof (cases "0 < r")
  case False
  with assms show ?thesis by (intro stop) auto
next
  case True
  obtain l1 r1 t1 b1 where m: "match_level p tk ts lvl r tr b = (l1, r1, t1, b1)"
    using prod_cases4 by blast
  show ?thesis
  proof (cases "orders l1 = []")
    case e: True
    with assms True m show ?thesis by (intro emptied[of l1 r1 t1 b1]) auto
  next
    case ne: False
    with match_level_exit'[OF m] have "r1 \<le> 0" by simp
    with assms True m ne show ?thesis
      by (intro kept[of l1]) (auto simp: match_levels_stop)
  qed
qed

lemma match_levels_append:
  "match_levels tk ts ls r [] b = (ls', r', new, b')
   \<Longrightarrow> match_levels tk ts ls r tr b = (ls', r', tr @ new, b')"
proof (induction ls arbitrary: r tr b ls' r' new b')
  case Nil
  then show ?case by auto
next
  case (Cons a ls)
  obtain p lvl where a: "a = (p, lvl)" by (cases a)
  from Cons.prems[unfolded a] show ?case
  proof (cases rule: match_levels_cases)
    case stop
    then show ?thesis by (simp add: a match_levels_stop)
  next
    case (emptied l1 r1 t1 b1)
    obtain ls0 r0 n0 b0 where m0: "match_levels tk ts ls r1 [] b1 = (ls0, r0, n0, b0)"
      using prod_cases4 by blast
    from Cons.IH[OF m0, of t1] emptied
    have eq: "ls' = ls0" "r' = r0" "new = t1 @ n0" "b' = b0" by simp_all
    from match_level_append'[OF emptied(2), of tr] Cons.IH[OF m0, of "tr @ t1"] emptied(1,3)
    show ?thesis by (simp add: a eq)
  next
    case (kept l1)
    from match_level_append'[OF kept(2), of tr] kept show ?thesis
      by (simp add: a match_levels_stop)
  qed
qed

lemma match_levels_index:
  "match_levels tk ts ls r tr b = (ls', r', tr', b')
   \<Longrightarrow> \<exists>k\<le>length (entries side ls). entries side ls' = drop k (entries side ls)
        \<and> order_lookup b' = order_lookup b |` (- set (take k (map fst (entries side ls))))
        \<and> order_count b' = order_count b - int k
        \<and> buy_levels b' = buy_levels b \<and> sell_levels b' = sell_levels b"
proof (induction ls arbitrary: r tr b ls' r' tr' b')
  case Nil
  then show ?case by auto
next
  case (Cons a ls)
  obtain p lvl where a: "a = (p, lvl)" by (cases a)
  let ?ids = "map o_id (orders lvl)"
  from Cons.prems[unfolded a] show ?case
  proof (cases rule: match_levels_cases)
    case stop
    then show ?thesis by (intro exI[of _ 0]) (simp add: a)
  next
    case (emptied l1 r1 t1 b1)
    from match_level_index'[OF emptied(2)] obtain k1 where k1: "k1 \<le> length (orders lvl)"
      "map o_id (orders l1) = drop k1 ?ids"
      "order_lookup b1 = order_lookup b |` (- set (take k1 ?ids))"
      "order_count b1 = order_count b - int k1"
      "buy_levels b1 = buy_levels b" "sell_levels b1 = sell_levels b" by blast
    from k1(1,2) emptied(3) have k1_eq: "k1 = length (orders lvl)" by simp
    from Cons.IH[OF emptied(4)] obtain k2 where k2: "k2 \<le> length (entries side ls)"
      "entries side ls' = drop k2 (entries side ls)"
      "order_lookup b' = order_lookup b1 |` (- set (take k2 (map fst (entries side ls))))"
      "order_count b' = order_count b1 - int k2"
      "buy_levels b' = buy_levels b1" "sell_levels b' = sell_levels b1" by blast
    have "order_lookup b' = order_lookup b |` (- set (take (k1 + k2) (map fst (entries side (a # ls)))))"
      unfolding k2(3) k1(3) by (auto simp: a k1_eq restrict_map_def fun_eq_iff)
    with k1 k2 k1_eq emptied(3) show ?thesis
      by (intro exI[of _ "k1 + k2"]) (simp add: a)
  next
    case (kept l1)
    from match_level_index'[OF kept(2)] obtain k1 where k1: "k1 \<le> length (orders lvl)"
      "map o_id (orders l1) = drop k1 ?ids"
      "order_lookup b' = order_lookup b |` (- set (take k1 ?ids))"
      "order_count b' = order_count b - int k1"
      "buy_levels b' = buy_levels b" "sell_levels b' = sell_levels b" by blast
    then show ?thesis using kept(5) level_entries_drop[OF k1(2), of side p]
      by (intro exI[of _ k1]) (simp add: a)
  qed
qed

lemma match_levels_keys:
  "match_levels tk ts ls r tr b = (ls', r', tr', b')
   \<Longrightarrow> \<exists>n. map fst ls' = drop n (map fst ls)"
proof (induction ls arbitrary: r tr b ls' r' tr' b')
  case Nil
  then show ?case by auto
next
  case (Cons a ls)
  obtain p lvl where a: "a = (p, lvl)" by (cases a)
  from Cons.prems[unfolded a] show ?case
  proof (cases rule: match_levels_cases)
    case stop
    then show ?thesis by (intro exI[of _ 0]) (simp add: a)
  next
    case (emptied l1 r1 t1 b1)
    from Cons.IH[OF emptied(4)] obtain n where "map fst ls' = drop n (map fst ls)" by blast
    then show ?thesis by (intro exI[of _ "Suc n"]) (simp add: a)
  next
    case (kept l1)
    then show ?thesis by (intro exI[of _ 0]) (simp add: a)
  qed
qed

lemma match_levels_totals:
  "match_levels tk ts ls r tr b = (ls', r', tr', b')
   \<Longrightarrow> list_all (\<lambda>(p, lvl). level_ok lvl) ls \<Longrightarrow> list_all (\<lambda>(p, lvl). level_ok lvl) ls'"
proof (induction ls arbitrary: r tr b ls' r' tr' b')
  case Nil
  then show ?case by auto
next
  case (Cons a ls)
  obtain p lvl where a: "a = (p, lvl)" by (cases a)
  from Cons.prems(1)[unfolded a] show ?case
  proof (cases rule: match_levels_cases)
    case stop
    then show ?thesis using Cons.prems(2) by (simp add: a)
  next
    case (emptied l1 r1 t1 b1)
    from Cons.IH[OF emptied(4)] Cons.prems(2) show ?thesis by simp
  next
    case (kept l1)
    from match_level_total'[OF kept(2)] Cons.prems(2) kept(5) show ?thesis
      by (simp add: a level_ok_def)
  qed
qed


section \<open>The trades of one call\<close>

lemma entries_key:
  "(i, (p, s)) \<in> set (entries side ls) \<Longrightarrow> p \<in> fst ` set ls \<and> s = side"
  by (induction ls) (auto simp: level_entries_mem)

lemma entries_in:
  "(p, lvl) \<in> set ls \<Longrightarrow> x \<in> set (orders lvl) \<Longrightarrow> (o_id x, (p, side)) \<in> set (entries side ls)"
  by (induction ls) (auto simp: level_entries_mem)

lemma match_levels_cases0:
  assumes "match_levels tk ts ((p, lvl) # rest) r [] b = (ls', r', new, b')"
  obtains
    (stop) "r \<le> 0" "ls' = (p, lvl) # rest" "r' = r" "new = []" "b' = b"
  | (emptied) l1 r1 t1 b1 n0 where "0 < r" "match_level p tk ts lvl r [] b = (l1, r1, t1, b1)"
      "orders l1 = []" "match_levels tk ts rest r1 [] b1 = (ls', r', n0, b')" "new = t1 @ n0"
  | (kept) l1 where "0 < r" "match_level p tk ts lvl r [] b = (l1, r', new, b')"
      "orders l1 \<noteq> []" "r' \<le> 0" "ls' = (p, l1) # rest"
  using assms
proof (cases rule: match_levels_cases)
  case stop
  then show ?thesis using that(1) by simp
next
  case (emptied l1 r1 t1 b1)
  obtain ls0 r0 n0 b0 where m0: "match_levels tk ts rest r1 [] b1 = (ls0, r0, n0, b0)"
    using prod_cases4 by blast
  from match_levels_append[OF m0, of t1] emptied(4)
  have "ls' = ls0" "r' = r0" "new = t1 @ n0" "b' = b0" by simp_all
  with emptied m0 show ?thesis using that(2) by simp
next
  case (kept l1)
  then show ?thesis using that(3) by simp
qed

lemma match_levels_trades:
  "match_levels tk ts ls r [] b = (ls', r', new, b') \<Longrightarrow>
     (\<forall>t\<in>set new. (maker_id t, (t_price t, side)) \<in> set (entries side ls)
                   \<and> taker_id t = tk \<and> t_timestamp t = ts)
   \<and> trade_count b' = trade_count b + int (length new)
   \<and> last_trade_price b' = (if new = [] then last_trade_price b else t_price (last new))"
proof (induction ls arbitrary: r b ls' r' new b')
  case Nil
  then show ?case by auto
next
  case (Cons a ls)
  obtain p lvl where a: "a = (p, lvl)" by (cases a)
  from Cons.prems[unfolded a] show ?case
  proof (cases rule: match_levels_cases0)
    case stop
    then show ?thesis by simp
  next
    case (emptied l1 r1 t1 b1 n0)
    note lv = match_level_trades'[OF emptied(2)]
    from lv have mk: "\<forall>t\<in>set t1. maker_id t \<in> set (map o_id (orders lvl))"
      using set_mono_prefix by fastforce
    from lv have lp: "t1 \<noteq> [] \<Longrightarrow> t_price (last t1) = p" by simp
    from Cons.IH[OF emptied(4)] lv mk lp show ?thesis
      by (auto simp: a emptied(5) level_entries_mem)
  next
    case (kept l1)
    note lv = match_level_trades'[OF kept(2)]
    from lv have mk: "\<forall>t\<in>set new. maker_id t \<in> set (map o_id (orders lvl))"
      using set_mono_prefix by fastforce
    from lv have lp: "new \<noteq> [] \<Longrightarrow> t_price (last new) = p" by simp
    from lv mk lp show ?thesis
      by (auto simp: a level_entries_mem)
  qed
qed

lemma match_levels_prices_sorted:
  "match_levels tk ts ls r [] b = (ls', r', new, b') \<Longrightarrow> sorted_wrt R (map fst ls)
     \<Longrightarrow> sorted_wrt (\<lambda>x y. x = y \<or> R x y) (map t_price new)"
proof (induction ls arbitrary: r b ls' r' new b')
  case Nil
  then show ?case by auto
next
  case (Cons a ls)
  obtain p lvl where a: "a = (p, lvl)" by (cases a)
  have same: "sorted_wrt (\<lambda>x y. x = y \<or> R x y) (map t_price t1)" if "\<forall>t\<in>set t1. t_price t = p" for t1
    using that by (induction t1) auto
  from Cons.prems(1)[unfolded a] show ?case
  proof (cases rule: match_levels_cases0)
    case stop
    then show ?thesis by simp
  next
    case (emptied l1 r1 t1 b1 n0)
    from match_level_trades'[OF emptied(2)] have p1: "\<forall>t\<in>set t1. t_price t = p" by simp
    from match_levels_trades[OF emptied(4), of BUY] entries_key
    have p2: "\<forall>t\<in>set n0. t_price t \<in> fst ` set ls" by blast
    from Cons.prems(2) have "\<forall>k\<in>fst ` set ls. R p k" by (auto simp: a)
    with p2 have p3: "\<forall>t\<in>set n0. R p (t_price t)" by blast
    from Cons.prems(2) have "sorted_wrt R (map fst ls)" by simp
    from p1 p3 same[OF p1] Cons.IH[OF emptied(4) this] show ?thesis
      by (auto simp: emptied(5) sorted_wrt_append)
  next
    case (kept l1)
    from match_level_trades'[OF kept(2)] have "\<forall>t\<in>set new. t_price t = p" by simp
    then show ?thesis by (rule same)
  qed
qed

lemma match_levels_fifo:
  "match_levels tk ts ls r [] b = (ls', r', new, b') \<Longrightarrow> distinct (map fst ls)
     \<Longrightarrow> (q, lq) \<in> set ls
     \<Longrightarrow> prefix (map maker_id (filter (\<lambda>t. t_price t = q) new)) (map o_id (orders lq))"
proof (induction ls arbitrary: r b ls' r' new b')
  case Nil
  then show ?case by auto
next
  case (Cons a ls)
  obtain p lvl where a: "a = (p, lvl)" by (cases a)
  have all: "filter (\<lambda>t. t_price t = p) t1 = t1" if "\<forall>t\<in>set t1. t_price t = p" for t1
    using that by (induction t1) auto
  have none: "filter (\<lambda>t. t_price t = q) t1 = []" if "\<forall>t\<in>set t1. t_price t \<noteq> q" for t1
    using that by (induction t1) auto
  from Cons.prems(1)[unfolded a] show ?case
  proof (cases rule: match_levels_cases0)
    case stop
    then show ?thesis by simp
  next
    case (emptied l1 r1 t1 b1 n0)
    note lv = match_level_trades'[OF emptied(2)]
    from lv have p1: "\<forall>t\<in>set t1. t_price t = p" by simp
    from match_levels_trades[OF emptied(4), of BUY] entries_key
    have p2: "\<forall>t\<in>set n0. t_price t \<in> fst ` set ls" by blast
    show ?thesis
    proof (cases "(q, lq) = (p, lvl)")
      case True
      with Cons.prems(2) p2 have "\<forall>t\<in>set n0. t_price t \<noteq> q" by (auto simp: a)
      with none have "filter (\<lambda>t. t_price t = q) n0 = []" by blast
      with True all[OF p1] lv show ?thesis by (simp add: emptied(5))
    next
      case False
      with Cons.prems(3) have in_ls: "(q, lq) \<in> set ls" by (auto simp: a)
      with Cons.prems(2) have "q \<noteq> p" by (force simp: a)
      with p1 none have "filter (\<lambda>t. t_price t = q) t1 = []" by blast
      with Cons.IH[OF emptied(4) _ in_ls] Cons.prems(2) show ?thesis
        by (simp add: emptied(5))
    qed
  next
    case (kept l1)
    note lv = match_level_trades'[OF kept(2)]
    from lv have p1: "\<forall>t\<in>set new. t_price t = p" by simp
    show ?thesis
    proof (cases "(q, lq) = (p, lvl)")
      case True
      with all[OF p1] lv show ?thesis by simp
    next
      case False
      with Cons.prems(3) have in_ls: "(q, lq) \<in> set ls" by (auto simp: a)
      with Cons.prems(2) have "q \<noteq> p" by (force simp: a)
      with p1 none have "filter (\<lambda>t. t_price t = q) new = []" by blast
      then show ?thesis by simp
    qed
  qed
qed

lemma resting_Nil [simp]: "resting [] = []"
  by (simp add: resting_def)

lemma resting_Cons [simp]: "resting ((p, lvl) # ls) = orders lvl @ resting ls"
  by (simp add: resting_def)

lemma add_volume_Nil [simp]: "add_volume v [] = v"
  by (simp add: add_volume_def)

lemma add_volume_Cons [simp]: "add_volume v (q # qs) = add_volume (wrap64 (v + q)) qs"
  by (simp add: add_volume_def)

lemma add_volume_append [simp]: "add_volume v (qs @ rs) = add_volume (add_volume v qs) rs"
  by (simp add: add_volume_def)

lemma add_volume_wrap64: "add_volume (wrap64 v) qs = wrap64 (v + sum_list qs)"
  by (induction qs arbitrary: v) (simp_all add: add.assoc)

lemma match_level_volume:
  "match_level p tk ts \<lparr>orders = xs, total_quantity = tq\<rparr> r [] b = (l, r', new, b')
   \<Longrightarrow> \<not> clips (xs @ ys) r
   \<Longrightarrow> total_volume b' = add_volume (total_volume b) (map t_quantity new)
       \<and> (orders l = [] \<longrightarrow> \<not> clips ys r')"
proof (induction xs arbitrary: tq r b new l r' b')
  case Nil
  then show ?case by (auto simp add: match_level_Nil)
next
  case (Cons x xs)
  show ?case
  proof (cases "0 < r \<and> o_quantity x \<le> r")
    case True
    let ?t = "\<lparr>maker_id = o_id x, taker_id = tk, t_price = p,
                     t_quantity = o_quantity x, t_timestamp = ts\<rparr>"
    let ?b = "b\<lparr>order_lookup := (order_lookup b)(o_id x := None),
                order_count := order_count b - 1,
                last_trade_price := p,
                total_volume := wrap64 (total_volume b + o_quantity x),
                trade_count := trade_count b + 1\<rparr>"
    obtain l0 r0 n0 b0 where m0: "match_level p tk ts \<lparr>orders = xs, total_quantity = wrap64 (tq - o_quantity x)\<rparr> (r - o_quantity x) [] ?b = (l0, r0, n0, b0)"
      using prod_cases4 by blast
    from match_level_append[OF m0, of "[?t]"] Cons.prems(1) True
    have eq: "l = l0" "r' = r0" "new = ?t # n0" "b' = b0"
      by (simp_all add: match_level_Cons)
    from Cons.prems(2) True have "\<not> clips (xs @ ys) (r - o_quantity x)" by simp
    from Cons.IH[OF m0 this] show ?thesis
      by (simp add: eq)
  next
    case False
    with Cons.prems show ?thesis
      by (auto simp add: match_level_Cons split: if_splits)
  qed
qed

lemma match_levels_volume:
  "match_levels tk ts ls r [] b = (ls', r', new, b') \<Longrightarrow> \<not> clips (resting ls) r
     \<Longrightarrow> total_volume b' = add_volume (total_volume b) (map t_quantity new)"
proof (induction ls arbitrary: r b ls' r' new b')
  case Nil
  then show ?case by auto
next
  case (Cons a ls)
  obtain p lvl where a: "a = (p, lvl)" by (cases a)
  obtain xs tq where lvl: "lvl = \<lparr>orders = xs, total_quantity = tq\<rparr>" by (cases lvl)
  from Cons.prems(2) have nc: "\<not> clips (xs @ resting ls) r" by (simp add: a lvl)
  from Cons.prems(1)[unfolded a] show ?case
  proof (cases rule: match_levels_cases0)
    case stop
    then show ?thesis by simp
  next
    case (emptied l1 r1 t1 b1 n0)
    from match_level_volume[OF emptied(2)[unfolded lvl] nc] emptied(3)
    have "total_volume b1 = add_volume (total_volume b) (map t_quantity t1)" "\<not> clips (resting ls) r1"
      by simp_all
    with Cons.IH[OF emptied(4)] show ?thesis by (simp add: emptied(5))
  next
    case (kept l1)
    from match_level_volume[OF kept(2)[unfolded lvl] nc] show ?thesis by simp
  qed
qed


section \<open>Insertion into and removal from a side\<close>

lemma level_entries_ids [simp]:
  "fst ` set (level_entries side k lvl) = o_id ` set (orders lvl)"
  by (metis level_entries_keys list.set_map)

lemma entries_ids: "fst ` set (entries side ls) = o_id ` set (resting ls)"
proof (induction ls)
  case Nil
  then show ?case by simp
next
  case (Cons a ls)
  obtain k lvl where a: "a = (k, lvl)" by (cases a)
  from Cons show ?case by (simp add: a image_Un)
qed

lemma entries_length: "length (entries side ls) = length (resting ls)"
  by (induction ls) auto

lemma level_add_entries_set:
  "set (entries side (level_add lt ord ls))
     = insert (o_id ord, (o_price ord, side)) (set (entries side ls))"
  by (induction ls) (auto split: if_splits)

lemma level_add_entries_length:
  "length (entries side (level_add lt ord ls)) = Suc (length (entries side ls))"
  by (induction ls) auto

lemma level_add_entries_distinct:
  "distinct (map fst (entries side ls)) \<Longrightarrow> o_id ord \<notin> fst ` set (entries side ls)
     \<Longrightarrow> distinct (map fst (entries side (level_add lt ord ls)))"
proof (induction ls)
  case Nil
  then show ?case by simp
next
  case (Cons a ls)
  obtain k lvl where a: "a = (k, lvl)" by (cases a)
  have ks: "set (map fst (entries side (level_add lt ord ls))) = insert (o_id ord) (set (map fst (entries side ls)))"
    by (simp add: level_add_entries_set)
  have kl: "set (map fst (level_entries side k lvl)) = o_id ` set (orders lvl)"
    by simp
  from Cons.prems have d: "distinct (map o_id (orders lvl))" "distinct (map fst (entries side ls))"
     "o_id ` set (orders lvl) \<inter> set (map fst (entries side ls)) = {}"
     "o_id ord \<notin> o_id ` set (orders lvl)" "o_id ord \<notin> fst ` set (entries side ls)"
    by (auto simp: a image_Un)
  from Cons.IH[OF d(2) d(5)] d ks show ?case
    by (auto simp: a image_Un)
qed

lemma level_add_keys:
  "fst ` set (level_add lt ord ls) = insert (o_price ord) (fst ` set ls)"
proof (induction ls)
  case Nil
  then show ?case by simp
next
  case (Cons a ls)
  obtain k lvl where a: "a = (k, lvl)" by (cases a)
  from Cons show ?case by (auto simp: a)
qed

lemma level_add_sorted:
  assumes total: "\<And>x y. x \<noteq> y \<Longrightarrow> \<not> lt x y \<Longrightarrow> lt y x"
      and trans: "\<And>x y z. lt x y \<Longrightarrow> lt y z \<Longrightarrow> lt x z"
  shows "sorted_wrt lt (map fst ls) \<Longrightarrow> sorted_wrt lt (map fst (level_add lt ord ls))"
proof (induction ls)
  case Nil
  then show ?case by simp
next
  case (Cons a ls)
  obtain k lvl where a: "a = (k, lvl)" by (cases a)
  have keys: "fst ` set (level_add lt ord ls) = insert (o_price ord) (fst ` set ls)"
    by (rule level_add_keys)
  show ?case
  proof (cases "k = o_price ord")
    case True
    with Cons.prems show ?thesis by (simp add: a)
  next
    case False
    show ?thesis
    proof (cases "lt (o_price ord) k")
      case True
      from Cons.prems have "\<forall>x\<in>set ls. lt k (fst x)" by (simp add: a)
      with True trans have "\<forall>x\<in>set ls. lt (o_price ord) (fst x)" by blast
      with Cons.prems True False show ?thesis by (auto simp: a)
    next
      case nlt: False
      with False total have "lt k (o_price ord)" by metis
      with Cons nlt False keys show ?thesis
        by (auto simp: a)
    qed
  qed
qed

lemma level_add_totals:
  "list_all (\<lambda>(p, lvl). level_ok lvl) ls
     \<Longrightarrow> list_all (\<lambda>(p, lvl). level_ok lvl) (level_add lt ord ls)"
  by (induction ls) (auto simp: level_ok_def add_order_def empty_level_def)

text \<open>
  \<^verbatim>\<open>levels[price].add_order(order)\<close> on a map whose keys are in order: the level at
  the order's price gets the order at the tail of its queue, the other levels stay.
\<close>

lemma level_add_other:
  "k \<noteq> o_price ord \<Longrightarrow> map_of (level_add lt ord ls) k = map_of ls k"
  by (induction ls) auto

lemma level_add_appends:
  assumes asym: "\<And>x y. lt x y \<Longrightarrow> \<not> lt y x"
  shows "sorted_wrt lt (map fst ls) \<Longrightarrow>
           map_of (level_add lt ord ls) (o_price ord)
             = Some (add_order ord (case map_of ls (o_price ord) of
                                      None \<Rightarrow> empty_level | Some lvl \<Rightarrow> lvl))"
proof (induction ls)
  case Nil
  then show ?case by simp
next
  case (Cons a ls)
  obtain k lvl where a: "a = (k, lvl)" by (cases a)
  show ?case
  proof (cases "k = o_price ord")
    case True
    then show ?thesis by (simp add: a)
  next
    case ne: False
    show ?thesis
    proof (cases "lt (o_price ord) k")
      case True
      from Cons.prems have "\<forall>k'\<in>fst ` set ls. lt k k'" by (auto simp: a)
      with True asym have "o_price ord \<notin> fst ` set ls" by blast
      then have "map_of ls (o_price ord) = None" by (simp add: map_of_eq_None_iff)
      with True ne show ?thesis by (simp add: a)
    next
      case False
      with ne Cons show ?thesis by (simp add: a)
    qed
  qed
qed

lemma add_order_tail: "orders (add_order ord lvl) = orders lvl @ [ord]"
  by (simp add: add_order_def)

lemma erase_first_None: "erase_first oid xs = None \<longleftrightarrow> oid \<notin> o_id ` set xs"
  by (induction xs) (auto split: option.splits)

lemma erase_first_Some:
  "erase_first oid xs = Some (r, ys) \<Longrightarrow>
     o_id r = oid \<and> r \<in> set xs \<and> map o_id ys = remove1 oid (map o_id xs)
     \<and> sum_list (map o_quantity ys) = sum_list (map o_quantity xs) - o_quantity r"
  by (induction xs arbitrary: ys) (auto split: option.splits if_splits)

lemma level_entries_remove1:
  "map o_id (orders l) = remove1 oid (map o_id (orders lvl))
     \<Longrightarrow> level_entries side p l = remove1 (oid, (p, side)) (level_entries side p lvl)"
proof -
  have "map (\<lambda>i. (i, (p, side))) (remove1 oid ids) = remove1 (oid, (p, side)) (map (\<lambda>i. (i, (p, side))) ids)" for ids
    by (induction ids) auto
  then show "map o_id (orders l) = remove1 oid (map o_id (orders lvl))
     \<Longrightarrow> level_entries side p l = remove1 (oid, (p, side)) (level_entries side p lvl)"
    by (simp add: level_entries_def)
qed

lemma level_remove_False:
  "\<not> fst (level_remove oid price ls) \<Longrightarrow> snd (level_remove oid price ls) = ls"
  by (induction ls) (auto split: option.splits prod.splits)

lemma level_remove_entries:
  "fst (level_remove oid price ls) \<Longrightarrow>
     entries side (snd (level_remove oid price ls)) = remove1 (oid, (price, side)) (entries side ls)
     \<and> (oid, (price, side)) \<in> set (entries side ls)"
proof (induction ls)
  case Nil
  then show ?case by simp
next
  case (Cons a ls)
  obtain k lvl where a: "a = (k, lvl)" by (cases a)
  show ?case
  proof (cases "k = price")
    case True
    with Cons.prems obtain r ys where e: "erase_first oid (orders lvl) = Some (r, ys)"
      by (auto simp: a remove_order_def split: option.splits)
    let ?l = "lvl\<lparr>orders := ys, total_quantity := wrap64 (total_quantity lvl - o_quantity r)\<rparr>"
    from erase_first_Some[OF e] have ids: "map o_id (orders ?l) = remove1 oid (map o_id (orders lvl))"
      and mem: "oid \<in> o_id ` set (orders lvl)" by auto
    from mem have in_l: "(oid, (price, side)) \<in> set (level_entries side price lvl)"
      by (simp add: level_entries_mem)
    from level_entries_remove1[OF ids, of side price] in_l e True show ?thesis
      by (auto simp: a remove_order_def remove1_append)
  next
    case False
    then have "(oid, (price, side)) \<notin> set (level_entries side k lvl)"
      by (simp add: level_entries_mem)
    with False Cons show ?thesis
      by (auto simp: a remove1_append split: prod.splits)
  qed
qed

lemma level_remove_found:
  "distinct (map fst ls) \<Longrightarrow> (oid, (price, side)) \<in> set (entries side ls)
     \<Longrightarrow> fst (level_remove oid price ls)"
proof (induction ls)
  case Nil
  then show ?case by simp
next
  case (Cons a ls)
  obtain k lvl where a: "a = (k, lvl)" by (cases a)
  show ?case
  proof (cases "k = price")
    case True
    with Cons.prems(1) have "price \<notin> fst ` set ls" by (simp add: a)
    with entries_key have "(oid, (price, side)) \<notin> set (entries side ls)" by blast
    with Cons.prems(2) have "oid \<in> o_id ` set (orders lvl)" by (simp add: a level_entries_mem)
    then have "erase_first oid (orders lvl) \<noteq> None" by (simp add: erase_first_None)
    with True show ?thesis by (auto simp: a remove_order_def split: option.splits)
  next
    case False
    with Cons show ?thesis by (auto simp: a level_entries_mem split: prod.splits)
  qed
qed

lemma level_remove_keys:
  "\<exists>ks1 ks2. map fst ls = ks1 @ ks2 \<and>
     (map fst (snd (level_remove oid price ls)) = ks1 @ ks2
      \<or> map fst (snd (level_remove oid price ls)) = ks1 @ tl ks2)"
proof (induction ls)
  case Nil
  then show ?case by simp
next
  case (Cons a ls)
  obtain k lvl where a: "a = (k, lvl)" by (cases a)
  show ?case
  proof (cases "k = price")
    case True
    then show ?thesis
      by (intro exI[of _ "[]"] exI[of _ "map fst (a # ls)"]) (auto simp: a split: option.splits)
  next
    case False
    from Cons obtain ks1 ks2 where "map fst ls = ks1 @ ks2"
     "map fst (snd (level_remove oid price ls)) = ks1 @ ks2
      \<or> map fst (snd (level_remove oid price ls)) = ks1 @ tl ks2" by blast
    with False show ?thesis
      by (intro exI[of _ "k # ks1"] exI[of _ ks2]) (auto simp: a split: prod.splits)
  qed
qed

lemma level_remove_sorted:
  "sorted_wrt R (map fst ls) \<Longrightarrow> sorted_wrt R (map fst (snd (level_remove oid price ls)))"
proof -
  assume s: "sorted_wrt R (map fst ls)"
  from level_remove_keys[of ls oid price] obtain ks1 ks2 where k: "map fst ls = ks1 @ ks2"
     "map fst (snd (level_remove oid price ls)) = ks1 @ ks2
      \<or> map fst (snd (level_remove oid price ls)) = ks1 @ tl ks2" by blast
  have "sorted_wrt R (ks1 @ tl ks2)" using s unfolding k(1)
    by (cases ks2) (auto simp: sorted_wrt_append)
  with s k show ?thesis by auto
qed

lemma level_remove_subset:
  "set (map fst (snd (level_remove oid price ls))) \<subseteq> set (map fst ls)"
proof -
  from level_remove_keys[of ls oid price] obtain ks1 ks2 where k: "map fst ls = ks1 @ ks2"
     "map fst (snd (level_remove oid price ls)) = ks1 @ ks2
      \<or> map fst (snd (level_remove oid price ls)) = ks1 @ tl ks2" by blast
  have sub: "set (ks1 @ tl ks2) \<subseteq> set (ks1 @ ks2)" by (cases ks2) auto
  from k(2) show ?thesis
  proof
    assume e: "map fst (snd (level_remove oid price ls)) = ks1 @ ks2"
    show ?thesis unfolding e k(1) by (rule subset_refl)
  next
    assume e: "map fst (snd (level_remove oid price ls)) = ks1 @ tl ks2"
    show ?thesis unfolding e k(1) by (rule sub)
  qed
qed

lemma level_remove_totals:
  "list_all (\<lambda>(p, lvl). level_ok lvl) ls \<Longrightarrow>
     list_all (\<lambda>(p, lvl). level_ok lvl) (snd (level_remove oid price ls))"
proof (induction ls)
  case Nil
  then show ?case by simp
next
  case (Cons a ls)
  obtain k lvl where a: "a = (k, lvl)" by (cases a)
  show ?case
  proof (cases "k = price")
    case True
    show ?thesis
    proof (cases "erase_first oid (orders lvl)")
      case None
      with True Cons.prems show ?thesis by (simp add: a remove_order_def)
    next
      case (Some ry)
      obtain r ys where ry: "ry = (r, ys)" by (cases ry)
      from erase_first_Some[OF Some[unfolded ry]] Cons.prems True Some show ?thesis
        by (auto simp: a ry remove_order_def level_ok_def)
    qed
  next
    case False
    with Cons show ?thesis by (auto simp: a split: prod.splits)
  qed
qed


section \<open>Invariants under \<^verbatim>\<open>add_market_order\<close>\<close>

lemma removes_refl: "removes b b"
  unfolding removes_def
  by (rule exI[of _ "[]"], rule exI[of _ "[]"], rule exI[of _ "book_entries b"]) (simp add: restrict_map_def)

lemma removes_subset: "removes b b' \<Longrightarrow> set (book_entries b') \<subseteq> set (book_entries b)"
  by (auto simp: removes_def)

lemma removes_lookup_sound:
  assumes "removes b b'" "lookup_sound b"
  shows "lookup_sound b'"
proof -
  from assms(1) obtain pre gone post where r: "book_entries b = pre @ gone @ post"
    "book_entries b' = pre @ post" "order_lookup b' = order_lookup b |` (- set (map fst gone))"
    by (auto simp: removes_def)
  show ?thesis unfolding lookup_sound_def
  proof (intro allI impI)
    fix oid p s assume l: "order_lookup b' oid = Some (p, s)"
    with r(3) have "oid \<notin> set (map fst gone)" "order_lookup b oid = Some (p, s)"
      by (auto simp: restrict_map_def split: if_splits)
    with assms(2) have "(oid, (p, s)) \<in> set (book_entries b)" "(oid, (p, s)) \<notin> set gone"
      by (auto simp: lookup_sound_def image_iff)
    with r show "(oid, (p, s)) \<in> set (book_entries b')" by auto
  qed
qed

lemma map_of_cut:
  "distinct (map fst (pre @ gone @ post))
     \<Longrightarrow> map_of (pre @ post) = map_of (pre @ gone @ post) |` (- set (map fst gone))"
proof (rule ext)
  fix k
  assume d: "distinct (map fst (pre @ gone @ post))"
  show "map_of (pre @ post) k = (map_of (pre @ gone @ post) |` (- set (map fst gone))) k"
  proof (cases "k \<in> set (map fst gone)")
    case True
    with d have "k \<notin> fst ` set pre" "k \<notin> fst ` set post" by auto
    then have "map_of pre k = None" "map_of post k = None" by (simp_all add: map_of_eq_None_iff)
    with True show ?thesis by (simp add: restrict_map_def map_add_def)
  next
    case False
    then have "map_of gone k = None" by (simp add: map_of_eq_None_iff)
    with False show ?thesis by (simp add: restrict_map_def map_add_def split: option.splits)
  qed
qed

lemma removes_index_ok:
  assumes "removes b b'" "index_ok b"
  shows "index_ok b'"
proof -
  from assms(1) obtain pre gone post where r: "book_entries b = pre @ gone @ post"
    "book_entries b' = pre @ post" "order_lookup b' = order_lookup b |` (- set (map fst gone))"
    "order_count b' = order_count b - int (length gone)"
    by (auto simp: removes_def)
  from assms(2) have i: "distinct (map fst (pre @ gone @ post))"
    "order_lookup b = map_of (pre @ gone @ post)" "order_count b = int (length (pre @ gone @ post))"
    by (simp_all add: index_ok_def r(1))
  from i(1) have "distinct (map fst (pre @ post))" by auto
  moreover from map_of_cut[OF i(1)] have "order_lookup b' = map_of (pre @ post)"
    by (simp add: r(3) i(2))
  moreover have "order_count b' = int (length (pre @ post))" by (simp add: r(4) i(3))
  ultimately show ?thesis by (simp add: index_ok_def r(2))
qed

lemma add_market_order_BUY:
  assumes "add_market_order BUY q tk ts b = (trades, b')"
  obtains ls' r' b0 where "match_levels tk ts (sell_levels b) q [] b = (ls', r', trades, b0)"
    "b' = b0\<lparr>sell_levels := ls'\<rparr>"
  using assms by (auto simp: add_market_order_def match_market_order_buy_def split: prod.splits)

lemma add_market_order_SELL:
  assumes "add_market_order SELL q tk ts b = (trades, b')"
  obtains ls' r' b0 where "match_levels tk ts (buy_levels b) q [] b = (ls', r', trades, b0)"
    "b' = b0\<lparr>buy_levels := ls'\<rparr>"
  using assms by (auto simp: add_market_order_def match_market_order_sell_def split: prod.splits)

lemma add_market_order_removes:
  assumes "add_market_order side q tk ts b = (trades, b')"
  shows "removes b b'"
proof (cases side)
  case BUY
  from assms[unfolded BUY] obtain ls' r' b0 where
    m: "match_levels tk ts (sell_levels b) q [] b = (ls', r', trades, b0)"
    and b': "b' = b0\<lparr>sell_levels := ls'\<rparr>" by (rule add_market_order_BUY)
  from match_levels_index[OF m, of SELL] obtain k where k:
    "entries SELL ls' = drop k (entries SELL (sell_levels b))"
    "order_lookup b0 = order_lookup b |` (- set (take k (map fst (entries SELL (sell_levels b)))))"
    "order_count b0 = order_count b - int k" "k \<le> length (entries SELL (sell_levels b))"
    "buy_levels b0 = buy_levels b" by blast
  show ?thesis unfolding removes_def
    by (rule exI[of _ "entries BUY (buy_levels b)"],
        rule exI[of _ "take k (entries SELL (sell_levels b))"],
        rule exI[of _ "drop k (entries SELL (sell_levels b))"])
       (simp add: book_entries_def b' k take_map)
next
  case SELL
  from assms[unfolded SELL] obtain ls' r' b0 where
    m: "match_levels tk ts (buy_levels b) q [] b = (ls', r', trades, b0)"
    and b': "b' = b0\<lparr>buy_levels := ls'\<rparr>" by (rule add_market_order_SELL)
  from match_levels_index[OF m, of BUY] obtain k where k:
    "entries BUY ls' = drop k (entries BUY (buy_levels b))"
    "order_lookup b0 = order_lookup b |` (- set (take k (map fst (entries BUY (buy_levels b)))))"
    "order_count b0 = order_count b - int k" "k \<le> length (entries BUY (buy_levels b))"
    "sell_levels b0 = sell_levels b" by blast
  show ?thesis unfolding removes_def
    by (rule exI[of _ "[]"],
        rule exI[of _ "take k (entries BUY (buy_levels b))"],
        rule exI[of _ "drop k (entries BUY (buy_levels b)) @ entries SELL (sell_levels b)"])
       (simp add: book_entries_def b' k take_map)
qed

lemma add_market_order_keys_sorted:
  assumes "add_market_order side q tk ts b = (trades, b')" "keys_sorted b"
  shows "keys_sorted b'"
proof (cases side)
  case BUY
  from assms(1)[unfolded BUY] obtain ls' r' b0 where
    m: "match_levels tk ts (sell_levels b) q [] b = (ls', r', trades, b0)"
    and b': "b' = b0\<lparr>sell_levels := ls'\<rparr>" by (rule add_market_order_BUY)
  from match_levels_index[OF m, of SELL] have "buy_levels b0 = buy_levels b" by blast
  with match_levels_keys[OF m] assms(2) show ?thesis
    by (auto simp: keys_sorted_def b')
next
  case SELL
  from assms(1)[unfolded SELL] obtain ls' r' b0 where
    m: "match_levels tk ts (buy_levels b) q [] b = (ls', r', trades, b0)"
    and b': "b' = b0\<lparr>buy_levels := ls'\<rparr>" by (rule add_market_order_SELL)
  from match_levels_index[OF m, of SELL] have "sell_levels b0 = sell_levels b" by blast
  with match_levels_keys[OF m] assms(2) show ?thesis
    by (auto simp: keys_sorted_def b')
qed

lemma add_market_order_totals_ok:
  assumes "add_market_order side q tk ts b = (trades, b')" "totals_ok b"
  shows "totals_ok b'"
proof (cases side)
  case BUY
  from assms(1)[unfolded BUY] obtain ls' r' b0 where
    m: "match_levels tk ts (sell_levels b) q [] b = (ls', r', trades, b0)"
    and b': "b' = b0\<lparr>sell_levels := ls'\<rparr>" by (rule add_market_order_BUY)
  from match_levels_index[OF m, of SELL] have "buy_levels b0 = buy_levels b" by blast
  with match_levels_totals[OF m] assms(2) show ?thesis
    by (auto simp: totals_ok_def b')
next
  case SELL
  from assms(1)[unfolded SELL] obtain ls' r' b0 where
    m: "match_levels tk ts (buy_levels b) q [] b = (ls', r', trades, b0)"
    and b': "b' = b0\<lparr>buy_levels := ls'\<rparr>" by (rule add_market_order_SELL)
  from match_levels_index[OF m, of SELL] have "sell_levels b0 = sell_levels b" by blast
  with match_levels_totals[OF m] assms(2) show ?thesis
    by (auto simp: totals_ok_def b')
qed


section \<open>Invariants under \<^verbatim>\<open>cancel_order\<close> and \<^verbatim>\<open>add_limit_order\<close>\<close>

lemma remove1_cut:
  "e \<in> set xs \<Longrightarrow> \<exists>pre post. xs = pre @ [e] @ post \<and> remove1 e xs = pre @ post"
proof -
  assume "e \<in> set xs"
  then obtain ys zs where s: "xs = ys @ e # zs" "e \<notin> set ys" by (meson split_list_first)
  then have "remove1 e xs = ys @ zs" by (simp add: remove1_append)
  with s(1) show ?thesis by auto
qed

lemma cancel_order_cases:
  assumes "cancel_order oid b = (res, b')"
  obtains
    (absent) "order_lookup b oid = None" "res = False" "b' = b"
  | (missed) p s where "order_lookup b oid = Some (p, s)" "res = True" "b' = b"
      "\<not> fst (level_remove oid p (if s = BUY then buy_levels b else sell_levels b))"
  | (bid) p where "order_lookup b oid = Some (p, BUY)" "res = True"
      "fst (level_remove oid p (buy_levels b))"
      "b' = b\<lparr>buy_levels := snd (level_remove oid p (buy_levels b)),
              order_lookup := (order_lookup b)(oid := None),
              order_count := order_count b - 1\<rparr>"
  | (ask) p where "order_lookup b oid = Some (p, SELL)" "res = True"
      "fst (level_remove oid p (sell_levels b))"
      "b' = b\<lparr>sell_levels := snd (level_remove oid p (sell_levels b)),
              order_lookup := (order_lookup b)(oid := None),
              order_count := order_count b - 1\<rparr>"
proof (cases "order_lookup b oid")
  case None
  with assms show ?thesis by (intro absent) (auto simp: cancel_order_def)
next
  case (Some ps)
  obtain p s where ps: "ps = (p, s)" by (cases ps)
  show ?thesis
  proof (cases s)
    case BUY
    show ?thesis
    proof (cases "fst (level_remove oid p (buy_levels b))")
      case True
      with assms Some ps BUY show ?thesis
        by (intro bid[of p]) (auto simp: cancel_order_def remove_order_from_side_def split: prod.splits)
    next
      case False
      with assms Some ps BUY show ?thesis
        by (intro missed[of p s]) (auto simp: cancel_order_def remove_order_from_side_def split: prod.splits)
    qed
  next
    case SELL
    show ?thesis
    proof (cases "fst (level_remove oid p (sell_levels b))")
      case True
      with assms Some ps SELL show ?thesis
        by (intro ask[of p]) (auto simp: cancel_order_def remove_order_from_side_def split: prod.splits)
    next
      case False
      with assms Some ps SELL show ?thesis
        by (intro missed[of p s]) (auto simp: cancel_order_def remove_order_from_side_def split: prod.splits)
    qed
  qed
qed

lemma cancel_order_removes:
  assumes "cancel_order oid b = (res, b')"
  shows "removes b b'"
  using assms
proof (cases rule: cancel_order_cases)
  case absent
  then show ?thesis by (simp add: removes_refl)
next
  case (missed p s)
  then show ?thesis by (simp add: removes_refl)
next
  case (bid p)
  let ?e = "(oid, (p, BUY))"
  from level_remove_entries[OF bid(3), of BUY]
  have e: "entries BUY (snd (level_remove oid p (buy_levels b))) = remove1 ?e (entries BUY (buy_levels b))"
    "?e \<in> set (entries BUY (buy_levels b))" by simp_all
  from remove1_cut[OF e(2)] e(1) obtain pre post where
    c: "entries BUY (buy_levels b) = pre @ [?e] @ post"
       "entries BUY (snd (level_remove oid p (buy_levels b))) = pre @ post" by metis
  have lk: "(order_lookup b)(oid := None) = order_lookup b |` (- {oid})"
    by (auto simp: restrict_map_def fun_eq_iff)
  show ?thesis unfolding removes_def
    by (rule exI[of _ pre], rule exI[of _ "[?e]"],
        rule exI[of _ "post @ entries SELL (sell_levels b)"])
       (simp add: book_entries_def bid(4) c lk)
next
  case (ask p)
  let ?e = "(oid, (p, SELL))"
  from level_remove_entries[OF ask(3), of SELL]
  have e: "entries SELL (snd (level_remove oid p (sell_levels b))) = remove1 ?e (entries SELL (sell_levels b))"
    "?e \<in> set (entries SELL (sell_levels b))" by simp_all
  from remove1_cut[OF e(2)] e(1) obtain pre post where
    c: "entries SELL (sell_levels b) = pre @ [?e] @ post"
       "entries SELL (snd (level_remove oid p (sell_levels b))) = pre @ post" by metis
  have lk: "(order_lookup b)(oid := None) = order_lookup b |` (- {oid})"
    by (auto simp: restrict_map_def fun_eq_iff)
  show ?thesis unfolding removes_def
    by (rule exI[of _ "entries BUY (buy_levels b) @ pre"], rule exI[of _ "[?e]"],
        rule exI[of _ post])
       (simp add: book_entries_def ask(4) c lk)
qed

lemma cancel_order_keys_sorted:
  assumes "cancel_order oid b = (res, b')" "keys_sorted b"
  shows "keys_sorted b'"
  using assms(1)
proof (cases rule: cancel_order_cases)
  case (bid p)
  with assms(2) level_remove_sorted show ?thesis by (simp add: keys_sorted_def)
next
  case (ask p)
  with assms(2) level_remove_sorted show ?thesis by (simp add: keys_sorted_def)
qed (use assms(2) in simp_all)

lemma cancel_order_totals_ok:
  assumes "cancel_order oid b = (res, b')" "totals_ok b"
  shows "totals_ok b'"
  using assms(1)
proof (cases rule: cancel_order_cases)
  case (bid p)
  with assms(2) level_remove_totals show ?thesis by (simp add: totals_ok_def)
next
  case (ask p)
  with assms(2) level_remove_totals show ?thesis by (simp add: totals_ok_def)
qed (use assms(2) in simp_all)

lemma sorted_wrt_distinct:
  "sorted_wrt R xs \<Longrightarrow> (\<And>x. \<not> R x x) \<Longrightarrow> distinct xs"
  by (induction xs) auto

lemma keys_sorted_distinct:
  "keys_sorted b \<Longrightarrow> distinct (map fst (buy_levels b)) \<and> distinct (map fst (sell_levels b))"
  unfolding keys_sorted_def
  using sorted_wrt_distinct[of "\<lambda>x y. x > y" "map fst (buy_levels b)"]
        sorted_wrt_distinct[of "\<lambda>x y. x < y" "map fst (sell_levels b)"]
  by simp

lemma cancel_order_found:
  assumes "cancel_order oid b = (res, b')" "keys_sorted b" "lookup_sound b" "res"
  shows "order_lookup b' oid = None"
  using assms(1)
proof (cases rule: cancel_order_cases)
  case absent
  with assms(4) show ?thesis by simp
next
  case (missed p s)
  from assms(3) missed(1) have m: "(oid, (p, s)) \<in> set (book_entries b)"
    by (simp add: lookup_sound_def)
  from keys_sorted_distinct[OF assms(2)]
  have d: "distinct (map fst (buy_levels b))" "distinct (map fst (sell_levels b))"
    by simp_all
  show ?thesis
  proof (cases s)
    case BUY
    with m entries_key have "(oid, (p, BUY)) \<in> set (entries BUY (buy_levels b))"
      by (fastforce simp: book_entries_def)
    from level_remove_found[OF d(1) this] missed(4) BUY show ?thesis by simp
  next
    case SELL
    with m entries_key have "(oid, (p, SELL)) \<in> set (entries SELL (sell_levels b))"
      by (fastforce simp: book_entries_def)
    from level_remove_found[OF d(2) this] missed(4) SELL show ?thesis by simp
  qed
next
  case (bid p)
  then show ?thesis by simp
next
  case (ask p)
  then show ?thesis by simp
qed

lemma add_limit_order_cases:
  assumes "add_limit_order ord b = (res, b')"
  obtains
    (rejected) "o_price ord \<le> 0 \<or> o_quantity ord \<le> 0" "res = False" "b' = b"
  | (bid) "0 < o_price ord" "0 < o_quantity ord" "o_side ord = BUY" "res = True"
      "b' = b\<lparr>buy_levels := level_add (\<lambda>x y. x > y) ord (buy_levels b),
              order_lookup := (order_lookup b)(o_id ord \<mapsto> (o_price ord, BUY)),
              order_count := order_count b + 1\<rparr>"
  | (ask) "0 < o_price ord" "0 < o_quantity ord" "o_side ord = SELL" "res = True"
      "b' = b\<lparr>sell_levels := level_add (\<lambda>x y. x < y) ord (sell_levels b),
              order_lookup := (order_lookup b)(o_id ord \<mapsto> (o_price ord, SELL)),
              order_count := order_count b + 1\<rparr>"
proof (cases "o_price ord \<le> 0 \<or> o_quantity ord \<le> 0")
  case True
  with assms show ?thesis
    by (intro rejected) (auto simp: add_limit_order_def is_valid_price_def is_valid_quantity_def)
next
  case False
  show ?thesis
  proof (cases "o_side ord")
    case BUY
    with False assms show ?thesis
      by (intro bid) (auto simp: add_limit_order_def add_limit_order_to_side_def
            is_valid_price_def is_valid_quantity_def Let_def)
  next
    case SELL
    with False assms show ?thesis
      by (intro ask) (auto simp: add_limit_order_def add_limit_order_to_side_def
            is_valid_price_def is_valid_quantity_def Let_def)
  qed
qed

lemma add_limit_order_keys_sorted:
  assumes "add_limit_order ord b = (res, b')" "keys_sorted b"
  shows "keys_sorted b'"
  using assms(1)
proof (cases rule: add_limit_order_cases)
  case rejected
  with assms(2) show ?thesis by simp
next
  case bid
  have "sorted_wrt (\<lambda>x y. x > y) (map fst (level_add (\<lambda>x y. x > y) ord (buy_levels b)))"
    using assms(2) by (intro level_add_sorted) (auto simp: keys_sorted_def)
  with assms(2) bid show ?thesis by (simp add: keys_sorted_def)
next
  case ask
  have "sorted_wrt (\<lambda>x y. x < y) (map fst (level_add (\<lambda>x y. x < y) ord (sell_levels b)))"
    using assms(2) by (intro level_add_sorted) (auto simp: keys_sorted_def)
  with assms(2) ask show ?thesis by (simp add: keys_sorted_def)
qed

lemma add_limit_order_totals_ok:
  assumes "add_limit_order ord b = (res, b')" "totals_ok b"
  shows "totals_ok b'"
  using assms(1)
proof (cases rule: add_limit_order_cases)
  case rejected
  with assms(2) show ?thesis by simp
next
  case bid
  with assms(2) level_add_totals show ?thesis by (simp add: totals_ok_def)
next
  case ask
  with assms(2) level_add_totals show ?thesis by (simp add: totals_ok_def)
qed

lemma add_limit_order_entries:
  assumes "add_limit_order ord b = (True, b')"
  shows "set (book_entries b') = insert (o_id ord, (o_price ord, o_side ord)) (set (book_entries b))"
    and "length (book_entries b') = Suc (length (book_entries b))"
    and "order_lookup b' = (order_lookup b)(o_id ord \<mapsto> (o_price ord, o_side ord))"
    and "order_count b' = order_count b + 1"
    and "0 < o_price ord \<and> 0 < o_quantity ord"
  using assms
  by (cases rule: add_limit_order_cases;
      simp add: book_entries_def level_add_entries_set level_add_entries_length)+

lemma add_limit_order_lookup_sound:
  assumes "add_limit_order ord b = (res, b')" "lookup_sound b"
  shows "lookup_sound b'"
proof (cases res)
  case True
  with assms(1) have "add_limit_order ord b = (True, b')" by simp
  from add_limit_order_entries[OF this] assms(2) show ?thesis
    by (auto simp: lookup_sound_def)
next
  case False
  with assms show ?thesis by (cases rule: add_limit_order_cases) simp_all
qed

lemma add_limit_order_index_ok:
  assumes "add_limit_order ord b = (res, b')" "index_ok b" "order_lookup b (o_id ord) = None"
  shows "index_ok b'"
proof (cases res)
  case True
  with assms(1) have "add_limit_order ord b = (True, b')" by simp
  note e = add_limit_order_entries[OF this]
  let ?e = "(o_id ord, (o_price ord, o_side ord))"
  from assms(2,3) have fresh: "o_id ord \<notin> fst ` set (book_entries b)"
    by (simp add: index_ok_def map_of_eq_None_iff)
  from assms(2) have d: "distinct (map fst (?e # book_entries b))"
    using fresh by (simp add: index_ok_def)
  have "length (map fst (book_entries b')) = card (set (map fst (book_entries b')))"
  proof -
    have "set (map fst (book_entries b')) = set (map fst (?e # book_entries b))"
      by (simp add: e(1))
    then have "card (set (map fst (book_entries b'))) = length (map fst (?e # book_entries b))"
      using distinct_card[OF d] by simp
    then show ?thesis by (simp add: e(2))
  qed
  then have d': "distinct (map fst (book_entries b'))" by (simp add: card_distinct)
  have "set (book_entries b') = set (?e # book_entries b)" by (simp add: e(1))
  with map_of_inject_set[OF d' d] have "map_of (book_entries b') = map_of (?e # book_entries b)"
    by simp
  with assms(2) d' e show ?thesis by (simp add: index_ok_def)
next
  case False
  with assms show ?thesis by (cases rule: add_limit_order_cases) simp_all
qed


section \<open>Reachable books\<close>

lemma clear_init: "clear b = init_book\<lparr>OrderBook.more := OrderBook.more b\<rparr>"
  by (simp add: clear_def init_book_def)

lemma init_invariants:
  "keys_sorted init_book" "lookup_sound init_book" "index_ok init_book" "totals_ok init_book"
  by (simp_all add: keys_sorted_def lookup_sound_def index_ok_def totals_ok_def
        book_entries_def init_book_def)

lemma clear_invariants:
  "keys_sorted (clear b)" "lookup_sound (clear b)" "index_ok (clear b)" "totals_ok (clear b)"
  by (simp_all add: keys_sorted_def lookup_sound_def index_ok_def totals_ok_def
        book_entries_def clear_def)

lemma apply_op_keys_sorted: "keys_sorted b \<Longrightarrow> keys_sorted (snd (apply_op op b))"
proof (cases op)
  case (AddLimitOrder ord)
  then show "keys_sorted b \<Longrightarrow> ?thesis"
    using add_limit_order_keys_sorted[of ord b] by (cases "add_limit_order ord b") simp
next
  case (AddMarketOrder side q tk ts)
  then show "keys_sorted b \<Longrightarrow> ?thesis"
    using add_market_order_keys_sorted[of side q tk ts b]
    by (cases "add_market_order side q tk ts b") simp
next
  case (CancelOrder oid)
  then show "keys_sorted b \<Longrightarrow> ?thesis"
    using cancel_order_keys_sorted[of oid b] by (cases "cancel_order oid b") simp
next
  case Clear
  then show ?thesis by (simp add: clear_invariants)
qed

lemma apply_op_totals_ok: "totals_ok b \<Longrightarrow> totals_ok (snd (apply_op op b))"
proof (cases op)
  case (AddLimitOrder ord)
  then show "totals_ok b \<Longrightarrow> ?thesis"
    using add_limit_order_totals_ok[of ord b] by (cases "add_limit_order ord b") simp
next
  case (AddMarketOrder side q tk ts)
  then show "totals_ok b \<Longrightarrow> ?thesis"
    using add_market_order_totals_ok[of side q tk ts b]
    by (cases "add_market_order side q tk ts b") simp
next
  case (CancelOrder oid)
  then show "totals_ok b \<Longrightarrow> ?thesis"
    using cancel_order_totals_ok[of oid b] by (cases "cancel_order oid b") simp
next
  case Clear
  then show ?thesis by (simp add: clear_invariants)
qed

lemma apply_op_lookup_sound: "lookup_sound b \<Longrightarrow> lookup_sound (snd (apply_op op b))"
proof (cases op)
  case (AddLimitOrder ord)
  then show "lookup_sound b \<Longrightarrow> ?thesis"
    using add_limit_order_lookup_sound[of ord b] by (cases "add_limit_order ord b") simp
next
  case (AddMarketOrder side q tk ts)
  then show "lookup_sound b \<Longrightarrow> ?thesis"
    using add_market_order_removes[of side q tk ts b] removes_lookup_sound[of b]
    by (cases "add_market_order side q tk ts b") simp
next
  case (CancelOrder oid)
  then show "lookup_sound b \<Longrightarrow> ?thesis"
    using cancel_order_removes[of oid b] removes_lookup_sound[of b]
    by (cases "cancel_order oid b") simp
next
  case Clear
  then show ?thesis by (simp add: clear_invariants)
qed

lemma apply_op_index_ok:
  "index_ok b \<Longrightarrow> ids_fresh [op] b \<Longrightarrow> index_ok (snd (apply_op op b))"
proof (cases op)
  case (AddLimitOrder ord)
  then show "index_ok b \<Longrightarrow> ids_fresh [op] b \<Longrightarrow> ?thesis"
    using add_limit_order_index_ok[of ord b] by (cases "add_limit_order ord b") simp
next
  case (AddMarketOrder side q tk ts)
  then show "index_ok b \<Longrightarrow> ?thesis"
    using add_market_order_removes[of side q tk ts b] removes_index_ok[of b]
    by (cases "add_market_order side q tk ts b") simp
next
  case (CancelOrder oid)
  then show "index_ok b \<Longrightarrow> ?thesis"
    using cancel_order_removes[of oid b] removes_index_ok[of b]
    by (cases "cancel_order oid b") simp
next
  case Clear
  then show ?thesis by (simp add: clear_invariants)
qed

lemma run_keys_sorted: "keys_sorted b \<Longrightarrow> keys_sorted (run ops b)"
  by (induction ops arbitrary: b) (simp_all add: apply_op_keys_sorted)

lemma run_totals_ok: "totals_ok b \<Longrightarrow> totals_ok (run ops b)"
  by (induction ops arbitrary: b) (simp_all add: apply_op_totals_ok)

lemma run_lookup_sound: "lookup_sound b \<Longrightarrow> lookup_sound (run ops b)"
  by (induction ops arbitrary: b) (simp_all add: apply_op_lookup_sound)

lemma run_index_ok: "index_ok b \<Longrightarrow> ids_fresh ops b \<Longrightarrow> index_ok (run ops b)"
proof (induction ops arbitrary: b)
  case Nil
  then show ?case by simp
next
  case (Cons op ops)
  from Cons.prems have "ids_fresh [op] b" "ids_fresh ops (snd (apply_op op b))" by simp_all
  with Cons.prems(1) Cons.IH apply_op_index_ok show ?case by simp
qed

section \<open>Resting quantities stay positive\<close>

lemma level_add_resting:
  "set (resting (level_add lt ord ls)) = insert ord (set (resting ls))"
proof (induction ls)
  case Nil
  then show ?case by (simp add: add_order_def empty_level_def)
next
  case (Cons a ls)
  obtain k lvl where a: "a = (k, lvl)" by (cases a)
  from Cons show ?case by (auto simp: a add_order_def empty_level_def)
qed

lemma match_level_positive:
  "match_level p tk ts \<lparr>orders = xs, total_quantity = tq\<rparr> r [] b = (l, r', new, b')
   \<Longrightarrow> \<forall>x\<in>set xs. 0 < o_quantity x
   \<Longrightarrow> (\<forall>x\<in>set (orders l). 0 < o_quantity x) \<and> (\<forall>t\<in>set new. 0 < t_quantity t)"
proof (induction xs arbitrary: tq r b new l r' b')
  case Nil
  then show ?case by (auto simp add: match_level_Nil)
next
  case (Cons x xs)
  show ?case
  proof (cases "0 < r \<and> o_quantity x \<le> r")
    case True
    let ?t = "\<lparr>maker_id = o_id x, taker_id = tk, t_price = p,
                     t_quantity = o_quantity x, t_timestamp = ts\<rparr>"
    let ?b = "b\<lparr>order_lookup := (order_lookup b)(o_id x := None),
                order_count := order_count b - 1,
                last_trade_price := p,
                total_volume := wrap64 (total_volume b + o_quantity x),
                trade_count := trade_count b + 1\<rparr>"
    obtain l0 r0 n0 b0 where m0: "match_level p tk ts \<lparr>orders = xs, total_quantity = wrap64 (tq - o_quantity x)\<rparr> (r - o_quantity x) [] ?b = (l0, r0, n0, b0)"
      using prod_cases4 by blast
    from match_level_append[OF m0, of "[?t]"] Cons.prems(1) True
    have eq: "l = l0" "r' = r0" "new = ?t # n0" "b' = b0"
      by (simp_all add: match_level_Cons)
    from Cons.prems(2) have "\<forall>x\<in>set xs. 0 < o_quantity x" "0 < o_quantity x" by simp_all
    with Cons.IH[OF m0] show ?thesis by (simp add: eq)
  next
    case False
    with Cons.prems show ?thesis
      by (auto simp add: match_level_Cons split: if_splits)
  qed
qed

lemma match_levels_positive:
  "match_levels tk ts ls r [] b = (ls', r', new, b')
   \<Longrightarrow> \<forall>x\<in>set (resting ls). 0 < o_quantity x
   \<Longrightarrow> (\<forall>x\<in>set (resting ls'). 0 < o_quantity x) \<and> (\<forall>t\<in>set new. 0 < t_quantity t)"
proof (induction ls arbitrary: r b ls' r' new b')
  case Nil
  then show ?case by auto
next
  case (Cons a ls)
  obtain p lvl where a: "a = (p, lvl)" by (cases a)
  obtain xs tq where lvl: "lvl = \<lparr>orders = xs, total_quantity = tq\<rparr>" by (cases lvl)
  from Cons.prems(2) have px: "\<forall>x\<in>set xs. 0 < o_quantity x"
    and pr: "\<forall>x\<in>set (resting ls). 0 < o_quantity x" by (simp_all add: a lvl)
  from Cons.prems(1)[unfolded a] show ?case
  proof (cases rule: match_levels_cases0)
    case stop
    with Cons.prems(2) show ?thesis by (simp add: a)
  next
    case (emptied l1 r1 t1 b1 n0)
    from match_level_positive[OF emptied(2)[unfolded lvl] px] Cons.IH[OF emptied(4) pr]
    show ?thesis by (auto simp: emptied(5))
  next
    case (kept l1)
    from match_level_positive[OF kept(2)[unfolded lvl] px] pr kept(5) show ?thesis by auto
  qed
qed

lemma erase_first_subset: "erase_first oid xs = Some (r, ys) \<Longrightarrow> set ys \<subseteq> set xs"
  by (induction xs arbitrary: ys) (auto split: option.splits if_splits)

lemma level_remove_resting:
  "set (resting (snd (level_remove oid price ls))) \<subseteq> set (resting ls)"
proof (induction ls)
  case Nil
  then show ?case by simp
next
  case (Cons a ls)
  obtain k lvl where a: "a = (k, lvl)" by (cases a)
  show ?case
  proof (cases "k = price")
    case True
    show ?thesis
    proof (cases "erase_first oid (orders lvl)")
      case None
      with True show ?thesis by (simp add: a remove_order_def)
    next
      case (Some ry)
      obtain r ys where ry: "ry = (r, ys)" by (cases ry)
      from erase_first_subset[OF Some[unfolded ry]] True Some show ?thesis
        by (auto simp: a ry remove_order_def)
    qed
  next
    case False
    with Cons show ?thesis by (auto simp: a split: prod.splits)
  qed
qed

lemma add_market_order_positive:
  assumes "add_market_order side q tk ts b = (trades, b')" "residuals_positive b"
  shows "residuals_positive b' \<and> (\<forall>t\<in>set trades. 0 < t_quantity t)"
proof (cases side)
  case BUY
  from assms(1)[unfolded BUY] obtain ls' r' b0 where
    m: "match_levels tk ts (sell_levels b) q [] b = (ls', r', trades, b0)"
    and b': "b' = b0\<lparr>sell_levels := ls'\<rparr>" by (rule add_market_order_BUY)
  from match_levels_index[OF m, of SELL] have f: "buy_levels b0 = buy_levels b" by blast
  from assms(2) have "\<forall>x\<in>set (resting (sell_levels b)). 0 < o_quantity x"
    by (simp add: residuals_positive_def)
  from match_levels_positive[OF m this] assms(2) f show ?thesis
    by (auto simp: residuals_positive_def b')
next
  case SELL
  from assms(1)[unfolded SELL] obtain ls' r' b0 where
    m: "match_levels tk ts (buy_levels b) q [] b = (ls', r', trades, b0)"
    and b': "b' = b0\<lparr>buy_levels := ls'\<rparr>" by (rule add_market_order_SELL)
  from match_levels_index[OF m, of SELL] have f: "sell_levels b0 = sell_levels b" by blast
  from assms(2) have "\<forall>x\<in>set (resting (buy_levels b)). 0 < o_quantity x"
    by (simp add: residuals_positive_def)
  from match_levels_positive[OF m this] assms(2) f show ?thesis
    by (auto simp: residuals_positive_def b')
qed

lemma cancel_order_positive:
  assumes "cancel_order oid b = (res, b')" "residuals_positive b"
  shows "residuals_positive b'"
  using assms(1)
proof (cases rule: cancel_order_cases)
  case (bid p)
  with assms(2) level_remove_resting[of oid p "buy_levels b"] show ?thesis
    by (auto simp: residuals_positive_def)
next
  case (ask p)
  with assms(2) level_remove_resting[of oid p "sell_levels b"] show ?thesis
    by (auto simp: residuals_positive_def)
qed (use assms(2) in simp_all)

lemma add_limit_order_positive:
  assumes "add_limit_order ord b = (res, b')" "residuals_positive b"
  shows "residuals_positive b'"
  using assms(1)
proof (cases rule: add_limit_order_cases)
  case rejected
  with assms(2) show ?thesis by simp
next
  case bid
  with assms(2) show ?thesis by (auto simp: residuals_positive_def level_add_resting)
next
  case ask
  with assms(2) show ?thesis by (auto simp: residuals_positive_def level_add_resting)
qed

lemma apply_op_positive:
  "residuals_positive b \<Longrightarrow>
     residuals_positive (snd (apply_op op b)) \<and> (\<forall>t\<in>set (fst (apply_op op b)). 0 < t_quantity t)"
proof (cases op)
  case (AddLimitOrder ord)
  then show "residuals_positive b \<Longrightarrow> ?thesis"
    using add_limit_order_positive[of ord b] by (cases "add_limit_order ord b") simp
next
  case (AddMarketOrder side q tk ts)
  then show "residuals_positive b \<Longrightarrow> ?thesis"
    using add_market_order_positive[of side q tk ts b]
    by (cases "add_market_order side q tk ts b") simp
next
  case (CancelOrder oid)
  then show "residuals_positive b \<Longrightarrow> ?thesis"
    using cancel_order_positive[of oid b] by (cases "cancel_order oid b") simp
next
  case Clear
  then show ?thesis by (simp add: residuals_positive_def clear_def)
qed

lemma run_positive: "residuals_positive b \<Longrightarrow> residuals_positive (run ops b)"
  by (induction ops arbitrary: b) (simp_all add: apply_op_positive)

lemma trades_since_clear_positive:
  "residuals_positive b \<Longrightarrow> \<forall>t\<in>set acc. 0 < t_quantity t
     \<Longrightarrow> \<forall>t\<in>set (trades_since_clear ops b acc). 0 < t_quantity t"
proof (induction ops arbitrary: b acc)
  case Nil
  then show ?case by simp
next
  case (Cons op ops)
  from apply_op_positive[OF Cons.prems(1), of op]
  have p: "residuals_positive (snd (apply_op op b))" "\<forall>t\<in>set (fst (apply_op op b)). 0 < t_quantity t"
    by simp_all
  from Cons.prems(2) p(2)
  have "\<forall>t\<in>set (case op of Clear \<Rightarrow> [] | _ \<Rightarrow> acc @ fst (apply_op op b)). 0 < t_quantity t"
    by (cases op) auto
  from Cons.IH[OF p(1) this] show ?case by simp
qed

lemma init_positive: "residuals_positive init_book"
  by (simp add: residuals_positive_def init_book_def)

lemma sum_list_positive: "\<forall>x\<in>set xs. 0 < f x \<Longrightarrow> 0 \<le> sum_list (map f xs)" for f :: "'a \<Rightarrow> int"
  by (induction xs) auto

section \<open>Trades, statistics and admissions along a run\<close>

lemma admitted_Cons:
  "admitted (op # ops) = admitted [op] \<union> admitted ops"
  by (auto simp: admitted_def)

lemma apply_op_admitted:
  "set (book_entries (snd (apply_op op b))) \<subseteq> set (book_entries b) \<union> admitted [op]"
proof (cases op)
  case (AddLimitOrder ord)
  obtain res b' where a: "add_limit_order ord b = (res, b')" by (cases "add_limit_order ord b")
  show ?thesis
  proof (cases res)
    case True
    with a have "add_limit_order ord b = (True, b')" by simp
    from add_limit_order_entries(1,5)[OF this] a AddLimitOrder show ?thesis
      by (auto simp: admitted_def is_valid_price_def is_valid_quantity_def)
  next
    case False
    with a have "b' = b" by (cases rule: add_limit_order_cases) simp_all
    with a AddLimitOrder show ?thesis by simp
  qed
next
  case (AddMarketOrder side q tk ts)
  then show ?thesis
    using add_market_order_removes[of side q tk ts b] removes_subset[of b]
    by (cases "add_market_order side q tk ts b") auto
next
  case (CancelOrder oid)
  then show ?thesis
    using cancel_order_removes[of oid b] removes_subset[of b]
    by (cases "cancel_order oid b") auto
next
  case Clear
  then show ?thesis by (simp add: book_entries_def clear_def)
qed

lemma run_admitted:
  "set (book_entries (run ops b)) \<subseteq> set (book_entries b) \<union> admitted ops"
proof (induction ops arbitrary: b)
  case Nil
  then show ?case by simp
next
  case (Cons op ops)
  from Cons.IH[of "snd (apply_op op b)"] apply_op_admitted[of op b] admitted_Cons[of op ops]
  show ?case by auto
qed

lemma add_market_order_trades:
  assumes "add_market_order side q tk ts b = (trades, b')"
  obtains ls' r' b0 where
    "match_levels tk ts (opposite_levels side b) q [] b = (ls', r', trades, b0)"
    "trade_count b' = trade_count b0" "last_trade_price b' = last_trade_price b0"
    "total_volume b' = total_volume b0"
proof (cases side)
  case BUY
  from assms[unfolded BUY] obtain ls' r' b0 where
    "match_levels tk ts (sell_levels b) q [] b = (ls', r', trades, b0)" "b' = b0\<lparr>sell_levels := ls'\<rparr>"
    by (rule add_market_order_BUY)
  with BUY that[of ls' r' b0] show ?thesis by (simp add: opposite_levels_def)
next
  case SELL
  from assms[unfolded SELL] obtain ls' r' b0 where
    "match_levels tk ts (buy_levels b) q [] b = (ls', r', trades, b0)" "b' = b0\<lparr>buy_levels := ls'\<rparr>"
    by (rule add_market_order_SELL)
  with SELL that[of ls' r' b0] show ?thesis by (simp add: opposite_levels_def)
qed

lemma opposite_entries:
  "set (entries (if side = BUY then SELL else BUY) (opposite_levels side b)) \<subseteq> set (book_entries b)"
  by (cases side) (auto simp: opposite_levels_def book_entries_def)

lemma add_market_order_stats:
  assumes "add_market_order side q tk ts b = (trades, b')"
  shows "trade_count b' = trade_count b + int (length trades)"
    and "last_trade_price b' = (if trades = [] then last_trade_price b else t_price (last trades))"
    and "\<not> clips (resting (opposite_levels side b)) q
           \<Longrightarrow> total_volume b' = add_volume (total_volume b) (map t_quantity trades)"
proof -
  from assms obtain ls' r' b0 where
    m: "match_levels tk ts (opposite_levels side b) q [] b = (ls', r', trades, b0)"
    and s: "trade_count b' = trade_count b0" "last_trade_price b' = last_trade_price b0"
      "total_volume b' = total_volume b0"
    by (rule add_market_order_trades)
  from match_levels_trades[OF m, of BUY] s
  show "trade_count b' = trade_count b + int (length trades)"
    and "last_trade_price b' = (if trades = [] then last_trade_price b else t_price (last trades))"
    by simp_all
  from match_levels_volume[OF m] s
  show "\<not> clips (resting (opposite_levels side b)) q
           \<Longrightarrow> total_volume b' = add_volume (total_volume b) (map t_quantity trades)"
    by simp
qed

lemma add_limit_order_stats:
  "trade_count (snd (add_limit_order ord b)) = trade_count b
   \<and> last_trade_price (snd (add_limit_order ord b)) = last_trade_price b
   \<and> total_volume (snd (add_limit_order ord b)) = total_volume b"
  by (simp add: add_limit_order_def add_limit_order_to_side_def Let_def)

lemma cancel_order_stats:
  "trade_count (snd (cancel_order oid b)) = trade_count b
   \<and> last_trade_price (snd (cancel_order oid b)) = last_trade_price b
   \<and> total_volume (snd (cancel_order oid b)) = total_volume b"
  by (simp add: cancel_order_def remove_order_from_side_def split: option.splits prod.splits bool.splits)

lemma run_stats:
  "stats_track b acc \<Longrightarrow> (\<not> pf \<longrightarrow> total_volume b = wrap64 (sum_list (map t_quantity acc))) \<Longrightarrow>
     stats_track (run ops b) (trades_since_clear ops b acc)
     \<and> (\<not> partial_fill_since_clear ops b pf \<longrightarrow>
          total_volume (run ops b) = wrap64 (sum_list (map t_quantity (trades_since_clear ops b acc))))"
proof (induction ops arbitrary: b acc pf)
  case Nil
  then show ?case by simp
next
  case (Cons op ops)
  show ?case
  proof (cases op)
    case (AddLimitOrder ord)
    with Cons.prems add_limit_order_stats[of ord b]
    have "stats_track (snd (apply_op op b)) acc"
      "\<not> pf \<longrightarrow> total_volume (snd (apply_op op b)) = wrap64 (sum_list (map t_quantity acc))"
      by (simp_all add: stats_track_def)
    from Cons.IH[OF this] AddLimitOrder show ?thesis by simp
  next
    case (AddMarketOrder side q tk ts)
    obtain trades b' where a: "add_market_order side q tk ts b = (trades, b')"
      by (cases "add_market_order side q tk ts b")
    let ?pf = "pf \<or> clips (resting (opposite_levels side b)) q"
    from add_market_order_stats(1,2)[OF a] Cons.prems(1)
    have 1: "stats_track b' (acc @ trades)" by (auto simp: stats_track_def)
    from add_market_order_stats(3)[OF a] Cons.prems(2)
    have 2: "\<not> ?pf \<longrightarrow> total_volume b' = wrap64 (sum_list (map t_quantity (acc @ trades)))"
      by (auto simp: add_volume_wrap64)
    from Cons.IH[OF 1 2] AddMarketOrder a show ?thesis by simp
  next
    case (CancelOrder oid)
    with Cons.prems cancel_order_stats[of oid b]
    have "stats_track (snd (apply_op op b)) acc"
      "\<not> pf \<longrightarrow> total_volume (snd (apply_op op b)) = wrap64 (sum_list (map t_quantity acc))"
      by (simp_all add: stats_track_def)
    from Cons.IH[OF this] CancelOrder show ?thesis by simp
  next
    case Clear
    have "stats_track (clear b) []"
      "\<not> False \<longrightarrow> total_volume (clear b) = wrap64 (sum_list (map t_quantity []))"
      by (simp_all add: stats_track_def clear_def)
    from Cons.IH[OF this] Clear show ?thesis by simp
  qed
qed

text \<open>
  \<open>clips\<close> is exact: when the aggressor runs out inside a resting order, the last
  trade has a positive quantity and the volume counter is what it would be had that
  trade carried the quantity 0.
\<close>

lemma clips_nonpositive: "r \<le> 0 \<Longrightarrow> \<not> clips xs r"
  by (cases xs) auto

lemma match_level_clipped:
  "match_level p tk ts \<lparr>orders = xs, total_quantity = tq\<rparr> r [] b = (l, r', new, b')
   \<Longrightarrow> clips (xs @ ys) r
   \<Longrightarrow> (if orders l = []
        then clips ys r' \<and> total_volume b' = add_volume (total_volume b) (map t_quantity new)
        else new \<noteq> [] \<and> 0 < t_quantity (last new)
             \<and> total_volume b'
                 = add_volume (total_volume b) (map t_quantity (butlast new) @ [0]))"
proof (induction xs arbitrary: tq r b new l r' b')
  case Nil
  then show ?case by (auto simp add: match_level_Nil)
next
  case (Cons x xs)
  from Cons.prems(2) have pos: "0 < r" by (auto split: if_splits)
  show ?case
  proof (cases "o_quantity x \<le> r")
    case True
    let ?t = "\<lparr>maker_id = o_id x, taker_id = tk, t_price = p,
                     t_quantity = o_quantity x, t_timestamp = ts\<rparr>"
    let ?b = "b\<lparr>order_lookup := (order_lookup b)(o_id x := None),
                order_count := order_count b - 1,
                last_trade_price := p,
                total_volume := wrap64 (total_volume b + o_quantity x),
                trade_count := trade_count b + 1\<rparr>"
    obtain l0 r0 n0 b0 where m0: "match_level p tk ts \<lparr>orders = xs, total_quantity = wrap64 (tq - o_quantity x)\<rparr> (r - o_quantity x) [] ?b = (l0, r0, n0, b0)"
      using prod_cases4 by blast
    from match_level_append[OF m0, of "[?t]"] Cons.prems(1) True pos
    have eq: "l = l0" "r' = r0" "new = ?t # n0" "b' = b0"
      by (simp_all add: match_level_Cons)
    from Cons.prems(2) True pos have "clips (xs @ ys) (r - o_quantity x)" by simp
    from Cons.IH[OF m0 this] show ?thesis
      by (auto simp add: eq split: if_splits)
  next
    case False
    with Cons.prems pos show ?thesis
      by (auto simp add: match_level_Cons split: if_splits)
  qed
qed

lemma match_levels_clipped:
  "match_levels tk ts ls r [] b = (ls', r', new, b') \<Longrightarrow> clips (resting ls) r
     \<Longrightarrow> new \<noteq> [] \<and> 0 < t_quantity (last new)
         \<and> total_volume b' = add_volume (total_volume b) (map t_quantity (butlast new) @ [0])"
proof (induction ls arbitrary: r b ls' r' new b')
  case Nil
  then show ?case by auto
next
  case (Cons a ls)
  obtain p lvl where a: "a = (p, lvl)" by (cases a)
  obtain xs tq where lvl: "lvl = \<lparr>orders = xs, total_quantity = tq\<rparr>" by (cases lvl)
  from Cons.prems(2) have c: "clips (xs @ resting ls) r" by (simp add: a lvl)
  from Cons.prems(1)[unfolded a] show ?case
  proof (cases rule: match_levels_cases0)
    case stop
    with c clips_nonpositive show ?thesis by blast
  next
    case (emptied l1 r1 t1 b1 n0)
    from match_level_clipped[OF emptied(2)[unfolded lvl] c] emptied(3)
    have "clips (resting ls) r1" "total_volume b1 = add_volume (total_volume b) (map t_quantity t1)"
      by simp_all
    with Cons.IH[OF emptied(4)] show ?thesis by (simp add: emptied(5) butlast_append)
  next
    case (kept l1)
    from match_level_clipped[OF kept(2)[unfolded lvl] c] kept(3) show ?thesis by simp
  qed
qed

lemma add_market_order_partial_fill_volume:
  assumes "add_market_order side q tk ts b = (trades, b')"
    and "clips (resting (opposite_levels side b)) q"
  shows "trades \<noteq> [] \<and> 0 < t_quantity (last trades)
         \<and> total_volume b' = add_volume (total_volume b) (map t_quantity (butlast trades) @ [0])"
proof -
  from assms(1) obtain ls' r' b0 where
    m: "match_levels tk ts (opposite_levels side b) q [] b = (ls', r', trades, b0)"
    and s: "total_volume b' = total_volume b0"
    by (rule add_market_order_trades)
  from match_levels_clipped[OF m assms(2)] s show ?thesis by simp
qed

section \<open>The engine keeps the two sides apart\<close>

lemma key_subset_uncrossed: "key_subset b' b \<Longrightarrow> uncrossed b \<Longrightarrow> uncrossed b'"
  unfolding key_subset_def uncrossed_def by (simp only: set_map) blast

lemma cancel_order_key_subset:
  assumes "cancel_order oid b = (res, b')"
  shows "key_subset b' b"
  using assms
proof (cases rule: cancel_order_cases)
  case (bid p)
  with level_remove_subset show ?thesis by (simp add: key_subset_def del: set_map)
next
  case (ask p)
  with level_remove_subset show ?thesis by (simp add: key_subset_def del: set_map)
qed (simp_all add: key_subset_def)

lemma add_market_order_key_subset:
  assumes "add_market_order side q tk ts b = (trades, b')"
  shows "key_subset b' b"
proof (cases side)
  case BUY
  from assms[unfolded BUY] obtain ls' r' b0 where
    m: "match_levels tk ts (sell_levels b) q [] b = (ls', r', trades, b0)"
    and b': "b' = b0\<lparr>sell_levels := ls'\<rparr>" by (rule add_market_order_BUY)
  from match_levels_index[OF m, of SELL] have f: "buy_levels b0 = buy_levels b" by blast
  from match_levels_keys[OF m] obtain n where "map fst ls' = drop n (map fst (sell_levels b))" by blast
  then have "set (map fst ls') \<subseteq> set (map fst (sell_levels b))" by (metis set_drop_subset)
  with f show ?thesis by (simp add: key_subset_def b' del: set_map)
next
  case SELL
  from assms[unfolded SELL] obtain ls' r' b0 where
    m: "match_levels tk ts (buy_levels b) q [] b = (ls', r', trades, b0)"
    and b': "b' = b0\<lparr>buy_levels := ls'\<rparr>" by (rule add_market_order_SELL)
  from match_levels_index[OF m, of SELL] have f: "sell_levels b0 = sell_levels b" by blast
  from match_levels_keys[OF m] obtain n where "map fst ls' = drop n (map fst (buy_levels b))" by blast
  then have "set (map fst ls') \<subseteq> set (map fst (buy_levels b))" by (metis set_drop_subset)
  with f show ?thesis by (simp add: key_subset_def b' del: set_map)
qed

lemma level_add_front:
  "\<forall>k\<in>fst ` set ls. k \<noteq> o_price ord \<and> lt (o_price ord) k
     \<Longrightarrow> level_add lt ord ls = (o_price ord, add_order ord empty_level) # ls"
  by (cases ls) auto

lemma match_levels_own_order:
  "0 < o_quantity ord \<Longrightarrow>
     match_levels tk ts ((p, add_order ord empty_level) # ls) (o_quantity ord) [] b
       = (ls, 0,
          [\<lparr>maker_id = o_id ord, taker_id = tk, t_price = p,
            t_quantity = o_quantity ord, t_timestamp = ts\<rparr>],
          b\<lparr>order_lookup := (order_lookup b)(o_id ord := None),
            order_count := order_count b - 1,
            last_trade_price := p,
            total_volume := wrap64 (total_volume b + o_quantity ord),
            trade_count := trade_count b + 1\<rparr>)"
  by (simp add: add_order_def empty_level_def match_level_Cons match_level_Nil match_levels_stop)

lemma process_limit_order_inv:
  assumes "keys_sorted b" "uncrossed b"
  shows "keys_sorted (snd (process_limit_order event b)) \<and> uncrossed (snd (process_limit_order event b))"
proof -
  let ?ord = "\<lparr>o_id = e_order_id event, o_side = e_side event, o_price = e_price event,
                 o_quantity = e_quantity event, o_timestamp = e_timestamp event\<rparr>"
  obtain res b1 where a: "add_limit_order ?ord b = (res, b1)" by (cases "add_limit_order ?ord b")
  from add_limit_order_keys_sorted[OF a assms(1)] have ks1: "keys_sorted b1" .
  from a show ?thesis
  proof (cases rule: add_limit_order_cases)
    case rejected
    with a assms show ?thesis by (simp add: process_limit_order_def)
  next
    case bid
    then have side: "e_side event = BUY" and pos: "0 < e_quantity event" by simp_all
    have sl: "sell_levels b1 = sell_levels b" by (simp add: bid(5))
    have bl: "buy_levels b1 = level_add (\<lambda>x y. x > y) ?ord (buy_levels b)" by (simp add: bid(5))
    have bk: "fst ` set (buy_levels b1) = insert (e_price event) (fst ` set (buy_levels b))"
      using level_add_keys[of "\<lambda>x y. x > y" ?ord "buy_levels b"] by (simp add: bl)
    show ?thesis
    proof (cases "sell_levels b")
      case Nil
      with a bid(4) side sl ks1 show ?thesis
        by (simp add: process_limit_order_def best_ask_price_def uncrossed_def)
    next
      case (Cons al asks)
      obtain best_ask lvl where al: "al = (best_ask, lvl)" by (cases al)
      from assms(1) Cons al have least: "\<forall>ap\<in>fst ` set (sell_levels b). best_ask \<le> ap"
        by (auto simp: keys_sorted_def)
      from assms(2) Cons al have below: "\<forall>bp\<in>fst ` set (buy_levels b). bp < best_ask"
        by (auto simp: uncrossed_def)
      show ?thesis
      proof (cases "e_price event \<ge> best_ask")
        case True
        with below have "\<forall>k\<in>fst ` set (buy_levels b). k \<noteq> o_price ?ord \<and> o_price ?ord > k"
          by auto
        from level_add_front[of "buy_levels b" ?ord "\<lambda>x y. x > y", OF this]
        have front: "buy_levels b1 = (e_price event, add_order ?ord empty_level) # buy_levels b"
          by (simp add: bl)
        from match_levels_own_order[of ?ord "e_order_id event" "e_timestamp event" "e_price event"
               "buy_levels b" b1] pos
        have "buy_levels (snd (add_market_order SELL (e_quantity event) (e_order_id event)
                                 (e_timestamp event) b1)) = buy_levels b
            \<and> sell_levels (snd (add_market_order SELL (e_quantity event) (e_order_id event)
                                 (e_timestamp event) b1)) = sell_levels b"
          by (simp add: add_market_order_def match_market_order_sell_def front sl)
        moreover have "snd (process_limit_order event b)
            = snd (add_market_order SELL (e_quantity event) (e_order_id event) (e_timestamp event) b1)"
          using a bid(4) side sl Cons al True
          by (simp add: process_limit_order_def best_ask_price_def)
        ultimately show ?thesis using assms by (simp add: keys_sorted_def uncrossed_def)
      next
        case False
        then have "snd (process_limit_order event b) = b1"
          using a bid(4) side sl Cons al by (simp add: process_limit_order_def best_ask_price_def)
        moreover have "uncrossed b1"
          unfolding uncrossed_def sl bk
        proof (intro ballI)
          fix bp ap
          assume bp: "bp \<in> insert (e_price event) (fst ` set (buy_levels b))"
            and ap: "ap \<in> fst ` set (sell_levels b)"
          from ap least have "best_ask \<le> ap" by blast
          moreover from bp below False have "bp < best_ask" by auto
          ultimately show "bp < ap" by simp
        qed
        ultimately show ?thesis using ks1 by simp
      qed
    qed
  next
    case ask
    then have side: "e_side event = SELL" and pos: "0 < e_quantity event" by simp_all
    have bl: "buy_levels b1 = buy_levels b" by (simp add: ask(5))
    have sl: "sell_levels b1 = level_add (\<lambda>x y. x < y) ?ord (sell_levels b)" by (simp add: ask(5))
    have sk: "fst ` set (sell_levels b1) = insert (e_price event) (fst ` set (sell_levels b))"
      using level_add_keys[of "\<lambda>x y. x < y" ?ord "sell_levels b"] by (simp add: sl)
    show ?thesis
    proof (cases "buy_levels b")
      case Nil
      with a ask(4) side bl ks1 show ?thesis
        by (simp add: process_limit_order_def best_bid_price_def uncrossed_def)
    next
      case (Cons bl0 bids)
      obtain best_bid lvl where bl0: "bl0 = (best_bid, lvl)" by (cases bl0)
      from assms(1) Cons bl0 have greatest: "\<forall>bp\<in>fst ` set (buy_levels b). bp \<le> best_bid"
        by (auto simp: keys_sorted_def)
      from assms(2) Cons bl0 have above: "\<forall>ap\<in>fst ` set (sell_levels b). best_bid < ap"
        by (auto simp: uncrossed_def)
      show ?thesis
      proof (cases "e_price event \<le> best_bid")
        case True
        with above have "\<forall>k\<in>fst ` set (sell_levels b). k \<noteq> o_price ?ord \<and> o_price ?ord < k"
          by auto
        from level_add_front[of "sell_levels b" ?ord "\<lambda>x y. x < y", OF this]
        have front: "sell_levels b1 = (e_price event, add_order ?ord empty_level) # sell_levels b"
          by (simp add: sl)
        from match_levels_own_order[of ?ord "e_order_id event" "e_timestamp event" "e_price event"
               "sell_levels b" b1] pos
        have "buy_levels (snd (add_market_order BUY (e_quantity event) (e_order_id event)
                                 (e_timestamp event) b1)) = buy_levels b
            \<and> sell_levels (snd (add_market_order BUY (e_quantity event) (e_order_id event)
                                 (e_timestamp event) b1)) = sell_levels b"
          by (simp add: add_market_order_def match_market_order_buy_def front bl)
        moreover have "snd (process_limit_order event b)
            = snd (add_market_order BUY (e_quantity event) (e_order_id event) (e_timestamp event) b1)"
          using a ask(4) side bl Cons bl0 True
          by (simp add: process_limit_order_def best_bid_price_def)
        ultimately show ?thesis using assms by (simp add: keys_sorted_def uncrossed_def)
      next
        case False
        then have "snd (process_limit_order event b) = b1"
          using a ask(4) side bl Cons bl0 by (simp add: process_limit_order_def best_bid_price_def)
        moreover have "uncrossed b1"
          unfolding uncrossed_def bl sk
        proof (intro ballI)
          fix bp ap
          assume bp: "bp \<in> fst ` set (buy_levels b)"
            and ap: "ap \<in> insert (e_price event) (fst ` set (sell_levels b))"
          from bp greatest have "bp \<le> best_bid" by blast
          moreover from ap above False have "best_bid < ap" by auto
          ultimately show "bp < ap" by simp
        qed
        ultimately show ?thesis using ks1 by simp
      qed
    qed
  qed
qed

lemma process_event_inv:
  assumes "keys_sorted b" "uncrossed b"
  shows "keys_sorted (snd (process_event event b)) \<and> uncrossed (snd (process_event event b))"
proof (cases "e_type event")
  case LIMIT
  with process_limit_order_inv[OF assms] show ?thesis by (simp add: process_event_def)
next
  case MARKET
  obtain trades b' where a: "add_market_order (e_side event) (e_quantity event) (e_order_id event)
       (e_timestamp event) b = (trades, b')" by (cases "add_market_order (e_side event)
       (e_quantity event) (e_order_id event) (e_timestamp event) b")
  from add_market_order_keys_sorted[OF a assms(1)]
       key_subset_uncrossed[OF add_market_order_key_subset[OF a] assms(2)] MARKET a
  show ?thesis by (simp add: process_event_def process_market_order_def)
next
  case CANCEL
  obtain res b' where c: "cancel_order (e_order_id event) b = (res, b')"
    by (cases "cancel_order (e_order_id event) b")
  from cancel_order_keys_sorted[OF c assms(1)]
       key_subset_uncrossed[OF cancel_order_key_subset[OF c] assms(2)] CANCEL c
  show ?thesis by (simp add: process_event_def process_cancel_order_def)
qed

lemma process_events_inv:
  "keys_sorted b \<Longrightarrow> uncrossed b \<Longrightarrow>
     keys_sorted (snd (process_events events b)) \<and> uncrossed (snd (process_events events b))"
proof (induction events arbitrary: b)
  case Nil
  then show ?case by simp
next
  case (Cons event events)
  have step: "snd (process_events (event # events) b)
      = snd (process_events events (snd (process_event event b)))"
    by (simp split: prod.splits)
  from process_event_inv[OF Cons.prems, of event]
  have "keys_sorted (snd (process_event event b))" "uncrossed (snd (process_event event b))"
    by simp_all
  from Cons.IH[OF this] show ?case by (simp only: step)
qed

section \<open>Queues hold admitted orders in call order\<close>

text \<open>
  Every step of a run keeps the queues inside the admission history: an admitted
  order goes to the tail of the queue at its price, the matcher takes orders from
  the front of a queue, and a cancel takes one order out of a queue.
\<close>

lemma level_add_mem:
  "(q, l') \<in> set (level_add lt ord ls) \<Longrightarrow>
     (q, l') \<in> set ls
     \<or> (q = o_price ord \<and> (l' = add_order ord empty_level
                            \<or> (\<exists>l. (q, l) \<in> set ls \<and> l' = add_order ord l)))"
  by (induction ls) (auto split: if_splits)

lemma match_levels_mem:
  "match_levels tk ts ls r tr b = (ls', r', tr', b') \<Longrightarrow> (q, l') \<in> set ls'
     \<Longrightarrow> \<exists>l k. (q, l) \<in> set ls \<and> map o_id (orders l') = drop k (map o_id (orders l))"
proof (induction ls arbitrary: r tr b ls' r' tr' b')
  case Nil
  then show ?case by auto
next
  case (Cons a ls)
  obtain p lvl where a: "a = (p, lvl)" by (cases a)
  from Cons.prems(1)[unfolded a] show ?case
  proof (cases rule: match_levels_cases)
    case stop
    with Cons.prems(2) a have "(q, l') \<in> set (a # ls)" by simp
    moreover have "map o_id (orders l') = drop 0 (map o_id (orders l'))" by simp
    ultimately show ?thesis by blast
  next
    case (emptied l1 r1 t1 b1)
    from Cons.IH[OF emptied(4) Cons.prems(2)] show ?thesis by auto
  next
    case (kept l1)
    from match_level_index'[OF kept(2)] obtain k where
      k: "map o_id (orders l1) = drop k (map o_id (orders lvl))" by blast
    from Cons.prems(2) kept(5) have "(q, l') = (p, l1) \<or> (q, l') \<in> set ls" by simp
    then show ?thesis
    proof
      assume "(q, l') = (p, l1)"
      with k a show ?thesis by auto
    next
      assume m: "(q, l') \<in> set ls"
      moreover have "map o_id (orders l') = drop 0 (map o_id (orders l'))" by simp
      ultimately show ?thesis by (metis list.set_intros(2))
    qed
  qed
qed

lemma level_remove_mem:
  "(q, l') \<in> set (snd (level_remove oid price ls)) \<Longrightarrow>
     (q, l') \<in> set ls
     \<or> (\<exists>l. (q, l) \<in> set ls \<and> map o_id (orders l') = remove1 oid (map o_id (orders l)))"
proof (induction ls)
  case Nil
  then show ?case by simp
next
  case (Cons a ls)
  obtain k lvl where a: "a = (k, lvl)" by (cases a)
  show ?case
  proof (cases "k = price")
    case True
    show ?thesis
    proof (cases "remove_order oid lvl")
      case None
      with Cons.prems a True show ?thesis by simp
    next
      case (Some rl)
      obtain r lv where rl: "rl = (r, lv)" by (cases rl)
      from Some rl obtain ys where e: "erase_first oid (orders lvl) = Some (r, ys)"
        and lv: "orders lv = ys"
        by (auto simp: remove_order_def split: option.splits)
      from erase_first_Some[OF e] lv
      have ids: "map o_id (orders lv) = remove1 oid (map o_id (orders lvl))" by simp
      from Cons.prems a True Some rl
      have "(q, l') \<in> set ls \<or> (q, l') = (k, lv)" by (auto split: if_splits)
      with ids a show ?thesis by auto
    qed
  next
    case False
    with Cons.prems a have "(q, l') = (k, lvl) \<or> (q, l') \<in> set (snd (level_remove oid price ls))"
      by (auto split: prod.splits)
    with Cons.IH a show ?thesis by auto
  qed
qed


lemma subseq_remove1: "subseq (remove1 x xs) xs"
  by (induction xs) auto

lemma admitted_at_append [simp]:
  "admitted_at s p (xs @ ys) = admitted_at s p xs @ admitted_at s p ys"
  by (simp add: admitted_at_def)

lemma admitted_at_Nil [simp]: "admitted_at s p [] = []"
  by (simp add: admitted_at_def)

lemma admitted_at_single:
  "admitted_at s p [ord] = (if o_side ord = s \<and> o_price ord = p then [o_id ord] else [])"
  by (simp add: admitted_at_def)

lemma queue_history_extend:
  "queue_history b adm \<Longrightarrow> queue_history b (adm @ ys)"
  unfolding queue_history_def by (auto intro: subseq_rev_drop_many)

lemma queue_history_levels:
  assumes "queue_history b adm"
    and "\<And>q l'. (q, l') \<in> set (buy_levels b') \<Longrightarrow>
            \<exists>l. (q, l) \<in> set (buy_levels b) \<and> subseq (map o_id (orders l')) (map o_id (orders l))"
    and "\<And>q l'. (q, l') \<in> set (sell_levels b') \<Longrightarrow>
            \<exists>l. (q, l) \<in> set (sell_levels b) \<and> subseq (map o_id (orders l')) (map o_id (orders l))"
  shows "queue_history b' adm"
  unfolding queue_history_def
proof (intro conjI ballI)
  fix x assume x: "x \<in> set (buy_levels b')"
  obtain q l' where xq: "x = (q, l')" by (cases x)
  from assms(2) x xq obtain l where l: "(q, l) \<in> set (buy_levels b)"
    "subseq (map o_id (orders l')) (map o_id (orders l))" by blast
  from assms(1) l(1) have "subseq (map o_id (orders l)) (admitted_at BUY q adm)"
    by (auto simp: queue_history_def)
  with l(2) have "subseq (map o_id (orders l')) (admitted_at BUY q adm)"
    by (rule subseq_order.trans)
  with xq show "case x of (p, lvl) \<Rightarrow> subseq (map o_id (orders lvl)) (admitted_at BUY p adm)"
    by simp
next
  fix x assume x: "x \<in> set (sell_levels b')"
  obtain q l' where xq: "x = (q, l')" by (cases x)
  from assms(3) x xq obtain l where l: "(q, l) \<in> set (sell_levels b)"
    "subseq (map o_id (orders l')) (map o_id (orders l))" by blast
  from assms(1) l(1) have "subseq (map o_id (orders l)) (admitted_at SELL q adm)"
    by (auto simp: queue_history_def)
  with l(2) have "subseq (map o_id (orders l')) (admitted_at SELL q adm)"
    by (rule subseq_order.trans)
  with xq show "case x of (p, lvl) \<Rightarrow> subseq (map o_id (orders lvl)) (admitted_at SELL p adm)"
    by simp
qed

lemma add_market_order_history:
  assumes "add_market_order side quantity taker ts b = (trades, b')" and "queue_history b adm"
  shows "queue_history b' adm"
proof (rule queue_history_levels[OF assms(2)])
  fix q l'
  assume m: "(q, l') \<in> set (buy_levels b')"
  show "\<exists>l. (q, l) \<in> set (buy_levels b) \<and> subseq (map o_id (orders l')) (map o_id (orders l))"
  proof (cases "side = BUY")
    case True
    obtain ls' r' tr' b0 where ml:
      "match_levels taker ts (sell_levels b) quantity [] b = (ls', r', tr', b0)"
      by (cases "match_levels taker ts (sell_levels b) quantity [] b") auto
    from match_levels_index[OF ml, of SELL] have "buy_levels b0 = buy_levels b" by blast
    with assms(1) True ml have "buy_levels b' = buy_levels b"
      by (auto simp: add_market_order_def match_market_order_buy_def)
    with m show ?thesis by auto
  next
    case False
    obtain ls' r' tr' b0 where ml:
      "match_levels taker ts (buy_levels b) quantity [] b = (ls', r', tr', b0)"
      by (cases "match_levels taker ts (buy_levels b) quantity [] b") auto
    with assms(1) False have "buy_levels b' = ls'"
      by (auto simp: add_market_order_def match_market_order_sell_def)
    with m match_levels_mem[OF ml, of q l'] obtain l k where
      "(q, l) \<in> set (buy_levels b)" "map o_id (orders l') = drop k (map o_id (orders l))"
      by blast
    then show ?thesis using suffix_drop suffix_imp_subseq by metis
  qed
next
  fix q l'
  assume m: "(q, l') \<in> set (sell_levels b')"
  show "\<exists>l. (q, l) \<in> set (sell_levels b) \<and> subseq (map o_id (orders l')) (map o_id (orders l))"
  proof (cases "side = BUY")
    case False
    obtain ls' r' tr' b0 where ml:
      "match_levels taker ts (buy_levels b) quantity [] b = (ls', r', tr', b0)"
      by (cases "match_levels taker ts (buy_levels b) quantity [] b") auto
    from match_levels_index[OF ml, of BUY] have "sell_levels b0 = sell_levels b" by blast
    with assms(1) False ml have "sell_levels b' = sell_levels b"
      by (auto simp: add_market_order_def match_market_order_sell_def)
    with m show ?thesis by auto
  next
    case True
    obtain ls' r' tr' b0 where ml:
      "match_levels taker ts (sell_levels b) quantity [] b = (ls', r', tr', b0)"
      by (cases "match_levels taker ts (sell_levels b) quantity [] b") auto
    with assms(1) True have "sell_levels b' = ls'"
      by (auto simp: add_market_order_def match_market_order_buy_def)
    with m match_levels_mem[OF ml, of q l'] obtain l k where
      "(q, l) \<in> set (sell_levels b)" "map o_id (orders l') = drop k (map o_id (orders l))"
      by blast
    then show ?thesis using suffix_drop suffix_imp_subseq by metis
  qed
qed

lemma cancel_order_levels:
  "(buy_levels (snd (cancel_order oid b)) = buy_levels b
      \<or> (\<exists>p. buy_levels (snd (cancel_order oid b)) = snd (level_remove oid p (buy_levels b))))
   \<and> (sell_levels (snd (cancel_order oid b)) = sell_levels b
      \<or> (\<exists>p. sell_levels (snd (cancel_order oid b)) = snd (level_remove oid p (sell_levels b))))"
proof -
  obtain res b' where c: "cancel_order oid b = (res, b')" by (cases "cancel_order oid b")
  from c show ?thesis
  proof (cases rule: cancel_order_cases)
    case absent
    with c show ?thesis by simp
  next
    case (missed p s)
    with c show ?thesis by simp
  next
    case (bid p)
    with c have "buy_levels (snd (cancel_order oid b)) = snd (level_remove oid p (buy_levels b))"
      "sell_levels (snd (cancel_order oid b)) = sell_levels b" by simp_all
    then show ?thesis by blast
  next
    case (ask p)
    with c have "sell_levels (snd (cancel_order oid b)) = snd (level_remove oid p (sell_levels b))"
      "buy_levels (snd (cancel_order oid b)) = buy_levels b" by simp_all
    then show ?thesis by blast
  qed
qed

lemma level_remove_history:
  assumes "(q, l') \<in> set ls'" and "ls' = ls \<or> (\<exists>p. ls' = snd (level_remove oid p ls))"
  shows "\<exists>l. (q, l) \<in> set ls \<and> subseq (map o_id (orders l')) (map o_id (orders l))"
proof -
  from assms level_remove_mem[of q l' oid _ ls]
  have "(q, l') \<in> set ls
        \<or> (\<exists>l. (q, l) \<in> set ls \<and> map o_id (orders l') = remove1 oid (map o_id (orders l)))"
    by auto
  then show ?thesis
  proof
    assume "(q, l') \<in> set ls"
    then show ?thesis by auto
  next
    assume "\<exists>l. (q, l) \<in> set ls \<and> map o_id (orders l') = remove1 oid (map o_id (orders l))"
    then obtain l where "(q, l) \<in> set ls"
      "map o_id (orders l') = remove1 oid (map o_id (orders l))" by blast
    with subseq_remove1[of oid "map o_id (orders l)"] show ?thesis by auto
  qed
qed

lemma cancel_order_history:
  assumes "queue_history b adm"
  shows "queue_history (snd (cancel_order oid b)) adm"
proof (rule queue_history_levels[OF assms])
  fix q l'
  assume "(q, l') \<in> set (buy_levels (snd (cancel_order oid b)))"
  with cancel_order_levels[of oid b]
  show "\<exists>l. (q, l) \<in> set (buy_levels b) \<and> subseq (map o_id (orders l')) (map o_id (orders l))"
    by (intro level_remove_history[of q l' _ "buy_levels b" oid]) auto
next
  fix q l'
  assume "(q, l') \<in> set (sell_levels (snd (cancel_order oid b)))"
  with cancel_order_levels[of oid b]
  show "\<exists>l. (q, l) \<in> set (sell_levels b) \<and> subseq (map o_id (orders l')) (map o_id (orders l))"
    by (intro level_remove_history[of q l' _ "sell_levels b" oid]) auto
qed

lemma level_add_history:
  assumes h: "\<forall>(p, lvl)\<in>set ls. subseq (map o_id (orders lvl)) (admitted_at (o_side ord) p adm)"
  shows "\<forall>(p, lvl)\<in>set (level_add lt ord ls).
           subseq (map o_id (orders lvl)) (admitted_at (o_side ord) p (adm @ [ord]))"
proof (intro ballI)
  fix x assume x: "x \<in> set (level_add lt ord ls)"
  obtain q l' where xq: "x = (q, l')" by (cases x)
  from x xq level_add_mem[of q l' lt ord ls]
  consider (old) "(q, l') \<in> set ls"
    | (fresh) "q = o_price ord" "l' = add_order ord empty_level"
    | (tail) l where "q = o_price ord" "(q, l) \<in> set ls" "l' = add_order ord l"
    by blast
  then have "subseq (map o_id (orders l')) (admitted_at (o_side ord) q (adm @ [ord]))"
  proof cases
    case old
    with h have "subseq (map o_id (orders l')) (admitted_at (o_side ord) q adm)" by auto
    then show ?thesis by (auto intro: subseq_rev_drop_many)
  next
    case fresh
    then show ?thesis
      by (simp add: admitted_at_single add_order_def empty_level_def subseq_singleton_left)
  next
    case tail
    with h have "subseq (map o_id (orders l)) (admitted_at (o_side ord) q adm)" by auto
    with tail show ?thesis
      by (simp add: admitted_at_single add_order_def)
  qed
  with xq show "case x of (p, lvl) \<Rightarrow>
      subseq (map o_id (orders lvl)) (admitted_at (o_side ord) p (adm @ [ord]))" by simp
qed

lemma add_limit_order_history:
  assumes "queue_history b adm"
  shows "queue_history (snd (add_limit_order ord b))
           (adm @ (if fst (add_limit_order ord b) then [ord] else []))"
proof (cases "fst (add_limit_order ord b)")
  case False
  then have "snd (add_limit_order ord b) = b"
    by (auto simp: add_limit_order_def add_limit_order_to_side_def Let_def split: if_splits)
  with False assms show ?thesis by simp
next
  case True
  then have v: "is_valid_price (o_price ord)" "is_valid_quantity (o_quantity ord)"
    by (auto simp: add_limit_order_def split: if_splits)
  show ?thesis
  proof (cases "o_side ord")
    case BUY
    from assms BUY have "\<forall>(p, lvl)\<in>set (buy_levels b).
        subseq (map o_id (orders lvl)) (admitted_at (o_side ord) p adm)"
      by (simp add: queue_history_def)
    from level_add_history[OF this, of "\<lambda>x y. x > y"] BUY
    have 1: "\<forall>(p, lvl)\<in>set (level_add (\<lambda>x y. x > y) ord (buy_levels b)).
           subseq (map o_id (orders lvl)) (admitted_at BUY p (adm @ [ord]))" by simp
    from queue_history_extend[OF assms, of "[ord]"]
    have 2: "\<forall>(p, lvl)\<in>set (sell_levels b).
           subseq (map o_id (orders lvl)) (admitted_at SELL p (adm @ [ord]))"
      by (simp add: queue_history_def)
    from v BUY have "buy_levels (snd (add_limit_order ord b)) = level_add (\<lambda>x y. x > y) ord (buy_levels b)"
      "sell_levels (snd (add_limit_order ord b)) = sell_levels b"
      by (simp_all add: add_limit_order_def add_limit_order_to_side_def Let_def)
    with 1 2 True show ?thesis by (simp add: queue_history_def)
  next
    case SELL
    from assms SELL have "\<forall>(p, lvl)\<in>set (sell_levels b).
        subseq (map o_id (orders lvl)) (admitted_at (o_side ord) p adm)"
      by (simp add: queue_history_def)
    from level_add_history[OF this, of "\<lambda>x y. x < y"] SELL
    have 1: "\<forall>(p, lvl)\<in>set (level_add (\<lambda>x y. x < y) ord (sell_levels b)).
           subseq (map o_id (orders lvl)) (admitted_at SELL p (adm @ [ord]))" by simp
    from queue_history_extend[OF assms, of "[ord]"]
    have 2: "\<forall>(p, lvl)\<in>set (buy_levels b).
           subseq (map o_id (orders lvl)) (admitted_at BUY p (adm @ [ord]))"
      by (simp add: queue_history_def)
    from v SELL have "sell_levels (snd (add_limit_order ord b)) = level_add (\<lambda>x y. x < y) ord (sell_levels b)"
      "buy_levels (snd (add_limit_order ord b)) = buy_levels b"
      by (simp_all add: add_limit_order_def add_limit_order_to_side_def Let_def)
    with 1 2 True show ?thesis by (simp add: queue_history_def)
  qed
qed

lemma run_history:
  "queue_history b past \<Longrightarrow> queue_history (run ops b) (past @ admissions ops b)"
proof (induction ops arbitrary: b past)
  case Nil
  then show ?case by simp
next
  case (Cons op ops)
  let ?step = "case op of
        AddLimitOrder ord \<Rightarrow> if fst (add_limit_order ord b) then [ord] else []
      | _ \<Rightarrow> []"
  have "queue_history (snd (apply_op op b)) (past @ ?step)"
  proof (cases op)
    case (AddLimitOrder ord)
    with add_limit_order_history[OF Cons.prems, of ord] show ?thesis by simp
  next
    case (AddMarketOrder side quantity taker ts)
    obtain trades b' where a: "add_market_order side quantity taker ts b = (trades, b')"
      by (cases "add_market_order side quantity taker ts b")
    from add_market_order_history[OF a Cons.prems] a AddMarketOrder show ?thesis by simp
  next
    case (CancelOrder oid)
    with cancel_order_history[OF Cons.prems, of oid] show ?thesis by simp
  next
    case Clear
    then show ?thesis by (simp add: queue_history_def clear_def)
  qed
  from Cons.IH[OF this] show ?case by simp
qed

lemma init_history: "queue_history init_book []"
  by (simp add: queue_history_def init_book_def)

lemma run_append: "run (xs @ ys) b = run ys (run xs b)"
  by (induction xs arbitrary: b) auto

lemma admissions_split:
  "admissions ops b = a1 @ oa # rest \<Longrightarrow>
     \<exists>ops1 ops2. ops = ops1 @ AddLimitOrder oa # ops2
        \<and> fst (add_limit_order oa (run ops1 b))
        \<and> admissions ops2 (run (ops1 @ [AddLimitOrder oa]) b) = rest"
proof (induction ops arbitrary: b a1)
  case Nil
  then show ?case by simp
next
  case (Cons op ops)
  let ?b1 = "snd (apply_op op b)"
  let ?step = "case op of
        AddLimitOrder ord \<Rightarrow> if fst (add_limit_order ord b) then [ord] else []
      | _ \<Rightarrow> []"
  have eq: "?step @ admissions ops ?b1 = a1 @ oa # rest" using Cons.prems by simp
  show ?case
  proof (cases "?step = [] \<or> a1 \<noteq> []")
    case True
    then obtain a1' where "admissions ops ?b1 = a1' @ oa # rest"
    proof
      assume "?step = []"
      with eq have "admissions ops ?b1 = a1 @ oa # rest" by simp
      then show ?thesis using that by blast
    next
      assume ne: "a1 \<noteq> []"
      show ?thesis
      proof (cases "?step = []")
        case True
        with eq have "admissions ops ?b1 = a1 @ oa # rest" by simp
        then show ?thesis using that by blast
      next
        case False
        then obtain ord where s: "?step = [ord]"
          by (auto split: Op.splits if_splits)
        from ne obtain z zs where a1: "a1 = z # zs" by (cases a1) auto
        from eq s a1 have "admissions ops ?b1 = zs @ oa # rest" by simp
        then show ?thesis using that by blast
      qed
    qed
    from Cons.IH[OF this] obtain ops1 ops2 where
      "ops = ops1 @ AddLimitOrder oa # ops2" "fst (add_limit_order oa (run ops1 ?b1))"
      "admissions ops2 (run (ops1 @ [AddLimitOrder oa]) ?b1) = rest" by blast
    then have "op # ops = (op # ops1) @ AddLimitOrder oa # ops2
        \<and> fst (add_limit_order oa (run (op # ops1) b))
        \<and> admissions ops2 (run ((op # ops1) @ [AddLimitOrder oa]) b) = rest" by simp
    then show ?thesis by blast
  next
    case False
    then have ne: "?step \<noteq> []" and a1: "a1 = []" by auto
    from ne obtain ord where op: "op = AddLimitOrder ord" and ok: "fst (add_limit_order ord b)"
      by (auto split: Op.splits if_splits)
    have st: "?step = [ord]" using op ok by simp
    have b1: "?b1 = snd (add_limit_order ord b)" using op by simp
    from eq[unfolded st a1] have oeq: "ord = oa" by simp
    from eq[unfolded st a1] have "admissions ops ?b1 = rest" by simp
    with b1 have "admissions ops (snd (add_limit_order ord b)) = rest" by simp
    with op ok oeq have "op # ops = [] @ AddLimitOrder oa # ops
        \<and> fst (add_limit_order oa (run [] b))
        \<and> admissions ops (run ([] @ [AddLimitOrder oa]) b) = rest" by auto
    then show ?thesis by blast
  qed
qed

lemma admissions_split2:
  assumes "admissions ops b = a1 @ oa # a2 @ ob # a3"
  shows "\<exists>ops1 ops2 ops3. ops = ops1 @ AddLimitOrder oa # ops2 @ AddLimitOrder ob # ops3
        \<and> fst (add_limit_order oa (run ops1 b))
        \<and> fst (add_limit_order ob (run (ops1 @ AddLimitOrder oa # ops2) b))"
proof -
  from admissions_split[OF assms] obtain ops1 rest where
    1: "ops = ops1 @ AddLimitOrder oa # rest" "fst (add_limit_order oa (run ops1 b))"
       "admissions rest (run (ops1 @ [AddLimitOrder oa]) b) = a2 @ ob # a3" by blast
  from admissions_split[OF 1(3)] obtain ops2 ops3 where
    2: "rest = ops2 @ AddLimitOrder ob # ops3"
       "fst (add_limit_order ob (run ops2 (run (ops1 @ [AddLimitOrder oa]) b)))" by blast
  have "run ops2 (run (ops1 @ [AddLimitOrder oa]) b) = run (ops1 @ AddLimitOrder oa # ops2) b"
    by (simp add: run_append)
  with 1 2 show ?thesis by auto
qed

lemma subseq_two_split:
  "subseq [u, v] (map f (filter Q ys)) \<Longrightarrow>
     \<exists>a1 oa a2 ob a3. ys = a1 @ oa # a2 @ ob # a3 \<and> Q oa \<and> Q ob \<and> f oa = u \<and> f ob = v"
proof (induction ys)
  case Nil
  then show ?case by simp
next
  case (Cons y ys)
  show ?case
  proof (cases "Q y \<and> f y = u")
    case True
    with Cons.prems have "subseq [v] (map f (filter Q ys))" by simp
    then have "v \<in> set (map f (filter Q ys))" by (simp add: subseq_singleton_left)
    then obtain ob where "ob \<in> set ys" "Q ob" "f ob = v" by auto
    then obtain a2 a3 where "ys = a2 @ ob # a3" by (meson split_list)
    with True \<open>Q ob\<close> \<open>f ob = v\<close> have "y # ys = [] @ y # a2 @ ob # a3 \<and> Q y \<and> Q ob \<and> f y = u \<and> f ob = v"
      by simp
    then show ?thesis by blast
  next
    case False
    with Cons.prems have "subseq [u, v] (map f (filter Q ys))"
      by (auto simp: subseq_Cons2_iff split: if_splits)
    from Cons.IH[OF this] obtain a1 oa a2 ob a3 where
      "ys = a1 @ oa # a2 @ ob # a3" "Q oa" "Q ob" "f oa = u" "f ob = v" by blast
    then have "y # ys = (y # a1) @ oa # a2 @ ob # a3 \<and> Q oa \<and> Q ob \<and> f oa = u \<and> f ob = v" by simp
    then show ?thesis by blast
  qed
qed

lemma subseq_two_of: "subseq [u, v] (m1 @ u # m2 @ v # m3)"
proof -
  have "subseq [v] (m2 @ v # m3)" by (simp add: subseq_singleton_left)
  then have "subseq [u, v] (u # m2 @ v # m3)" by (rule subseq_Cons2)
  then show ?thesis by (rule subseq_drop_many)
qed

lemma level_add_last:
  "\<exists>l. (o_price ord, l) \<in> set (level_add lt ord ls) \<and> orders l \<noteq> [] \<and> last (orders l) = ord"
proof (induction ls)
  case Nil
  then show ?case by (simp add: add_order_def)
next
  case (Cons a ls)
  obtain k lvl where a: "a = (k, lvl)" by (cases a)
  from Cons.IH a show ?case by (auto simp: add_order_def)
qed

lemma add_limit_order_appended:
  assumes "fst (add_limit_order ord b)" and "o_side ord \<noteq> side"
  shows "\<exists>l. (o_price ord, l) \<in> set (opposite_levels side (snd (add_limit_order ord b)))
             \<and> orders l \<noteq> [] \<and> last (orders l) = ord"
proof -
  obtain res b' where c: "add_limit_order ord b = (res, b')" by (cases "add_limit_order ord b")
  from c show ?thesis
  proof (cases rule: add_limit_order_cases)
    case rejected
    with assms(1) c show ?thesis by simp
  next
    case bid
    with assms(2) have s: "side = SELL" by (cases side) auto
    from level_add_last[of ord "\<lambda>x y. x > y" "buy_levels b"] bid c s show ?thesis
      by (simp add: opposite_levels_def)
  next
    case ask
    with assms(2) have s: "side = BUY" by (cases side) auto
    from level_add_last[of ord "\<lambda>x y. x < y" "sell_levels b"] ask c s show ?thesis
      by (simp add: opposite_levels_def)
  qed
qed

lemma run_queue_history:
  "(p, lvl) \<in> set (opposite_levels side (run ops init_book)) \<Longrightarrow>
     subseq (map o_id (orders lvl))
       (admitted_at (if side = BUY then SELL else BUY) p (admissions ops init_book))"
  using run_history[OF init_history, of ops]
  by (cases side) (auto simp: queue_history_def opposite_levels_def)

section \<open>Claims about reachable books\<close>

text \<open>
  C8. In every book reachable from the empty book by \<^verbatim>\<open>OrderBook\<close> operations and
  for every id: when \<^verbatim>\<open>cancel_order(id)\<close> returns true, a second
  \<^verbatim>\<open>cancel_order(id)\<close> right after it returns false and leaves the book exactly as
  the first call left it. The proof rests on two invariants: the keys of each side
  are strictly ordered, and every entry of the lookup index points at a level that
  holds an order with that id, so a successful lookup always removes the order and
  erases the entry. Reused ids do not break it.
\<close>

theorem cancel_order_twice:
  "fst (cancel_order oid (run ops init_book)) \<Longrightarrow>
     cancel_order oid (snd (cancel_order oid (run ops init_book)))
       = (False, snd (cancel_order oid (run ops init_book)))"
proof -
  let ?b = "run ops init_book"
  assume first: "fst (cancel_order oid ?b)"
  obtain res b' where c: "cancel_order oid ?b = (res, b')" by (cases "cancel_order oid ?b")
  from cancel_order_found[OF c run_keys_sorted run_lookup_sound] first c init_invariants
  have "order_lookup b' oid = None" by simp
  then have "cancel_order oid b' = (False, b')" by (simp add: cancel_order_def)
  with c show ?thesis by simp
qed

theorem cancel_order_twice_witness:
  "fst (cancel_order 1 (run [AddLimitOrder bid_1, AddLimitOrder bid_2] init_book))
   \<and> cancel_order 1 (snd (cancel_order 1 (run [AddLimitOrder bid_1, AddLimitOrder bid_2] init_book)))
       = (False, snd (cancel_order 1 (run [AddLimitOrder bid_1, AddLimitOrder bid_2] init_book)))"
proof -
  have h: "fst (cancel_order 1 (run [AddLimitOrder bid_1, AddLimitOrder bid_2] init_book))"
    by (simp add: bid_1_def bid_2_def book_defs)
  from h cancel_order_twice[OF h] show ?thesis by simp
qed

text \<open>
  C4 as stated fails, in each of its three parts, on one reachable book.
  \<^verbatim>\<open>add_limit_order\<close> admits an order whose id is already resting, and the level total
  is a 64-bit accumulator. Three orders of the largest quantity are admitted at one
  price, the first two under id 1, and a market sell takes the first: the lookup index
  holds only id 2 while ids 1 and 2 rest, \<^verbatim>\<open>size()\<close> is 2 with one index entry, and the
  level total is -2 while the residuals sum to 18446744073709551614.
\<close>

theorem reused_id_and_wrapped_total:
  "dom (order_lookup (run reused_id_big_orders init_book)) = {2}
   \<and> o_id ` (set (resting (buy_levels (run reused_id_big_orders init_book)))
             \<union> set (resting (sell_levels (run reused_id_big_orders init_book)))) = {1, 2}
   \<and> order_count (run reused_id_big_orders init_book) = 2
   \<and> card (dom (order_lookup (run reused_id_big_orders init_book))) = 1
   \<and> buy_levels (run reused_id_big_orders init_book)
       = [(10000, \<lparr>orders = [big_bid_1_again, big_bid_2], total_quantity = - 2\<rparr>)]
   \<and> sum_list (map o_quantity [big_bid_1_again, big_bid_2]) = 18446744073709551614"
proof -
  have l: "buy_levels (run reused_id_big_orders init_book)
       = [(10000, \<lparr>orders = [big_bid_1_again, big_bid_2], total_quantity = - 2\<rparr>)]"
    "sell_levels (run reused_id_big_orders init_book) = []"
    by (simp_all add: reused_id_big_orders_def big_bid_1_def big_bid_1_again_def big_bid_2_def
          int64_max_def book_defs)
  have d: "dom (order_lookup (run reused_id_big_orders init_book)) = {2}"
    by (simp add: reused_id_big_orders_def big_bid_1_def big_bid_1_again_def big_bid_2_def
          int64_max_def book_defs)
  have c: "order_count (run reused_id_big_orders init_book) = 2"
    by (simp add: reused_id_big_orders_def big_bid_1_def big_bid_1_again_def big_bid_2_def
          int64_max_def book_defs)
  have r: "o_id ` (set (resting (buy_levels (run reused_id_big_orders init_book)))
             \<union> set (resting (sell_levels (run reused_id_big_orders init_book)))) = {1, 2}"
    by (simp add: l big_bid_1_again_def big_bid_2_def)
  have s: "sum_list (map o_quantity [big_bid_1_again, big_bid_2]) = 18446744073709551614"
    by (simp add: big_bid_1_again_def big_bid_2_def int64_max_def)
  from l(1) d c r s show ?thesis by simp
qed

text \<open>
  C4, amended: in every book reachable from the empty book by \<^verbatim>\<open>OrderBook\<close>
  operations, the \<^verbatim>\<open>total_quantity\<close> of every level is the sum of the residual
  quantities of its queue reduced to the 64-bit range of \<^verbatim>\<open>Qty\<close>, hence that sum
  itself whenever the sum is at most \<open>2^63 - 1\<close>. If moreover each \<^verbatim>\<open>add_limit_order\<close>
  of the run carries an id that is not a key of the lookup index at the time of the
  call, the keys of the lookup index are exactly the ids of the orders resting in the
  two level maps and \<^verbatim>\<open>size()\<close> is the number of entries of the lookup index.
\<close>

theorem index_consistent_with_fresh_ids:
  "(ids_fresh ops init_book \<longrightarrow>
      dom (order_lookup (run ops init_book))
        = o_id ` (set (resting (buy_levels (run ops init_book)))
                  \<union> set (resting (sell_levels (run ops init_book))))
      \<and> order_count (run ops init_book) = int (card (dom (order_lookup (run ops init_book)))))
   \<and> (\<forall>(p, lvl)\<in>set (buy_levels (run ops init_book)) \<union> set (sell_levels (run ops init_book)).
         total_quantity lvl = wrap64 (sum_list (map o_quantity (orders lvl)))
         \<and> (sum_list (map o_quantity (orders lvl)) \<le> int64_max
              \<longrightarrow> total_quantity lvl = sum_list (map o_quantity (orders lvl))))"
proof -
  let ?b = "run ops init_book"
  have fresh: "dom (order_lookup ?b)
        = o_id ` (set (resting (buy_levels ?b)) \<union> set (resting (sell_levels ?b)))
      \<and> order_count ?b = int (card (dom (order_lookup ?b)))" if "ids_fresh ops init_book"
  proof -
    from that run_index_ok init_invariants(3) have i: "index_ok ?b" by blast
    from i have d: "dom (order_lookup ?b) = fst ` set (book_entries ?b)"
      by (simp add: index_ok_def dom_map_of_conv_image_fst)
    have "fst ` set (book_entries ?b)
        = o_id ` (set (resting (buy_levels ?b)) \<union> set (resting (sell_levels ?b)))"
      by (simp add: book_entries_def image_Un entries_ids)
    moreover from i have "card (fst ` set (book_entries ?b)) = length (book_entries ?b)"
      using distinct_card[of "map fst (book_entries ?b)"] by (simp add: index_ok_def)
    ultimately show ?thesis using i d by (simp add: index_ok_def)
  qed
  from run_totals_ok init_invariants(4) have t: "totals_ok ?b" by blast
  from run_positive init_positive have pos: "residuals_positive ?b" by blast
  have totals: "total_quantity lvl = wrap64 (sum_list (map o_quantity (orders lvl)))
         \<and> (sum_list (map o_quantity (orders lvl)) \<le> int64_max
              \<longrightarrow> total_quantity lvl = sum_list (map o_quantity (orders lvl)))"
    if mem: "(p, lvl) \<in> set (buy_levels ?b) \<union> set (sell_levels ?b)" for p lvl
  proof -
    from t mem have w: "total_quantity lvl = wrap64 (sum_list (map o_quantity (orders lvl)))"
      by (auto simp: totals_ok_def list_all_iff level_ok_def)
    from mem have "set (orders lvl) \<subseteq> set (resting (buy_levels ?b)) \<union> set (resting (sell_levels ?b))"
      by (auto simp: resting_def)
    with pos have "\<forall>x\<in>set (orders lvl). 0 < o_quantity x"
      by (auto simp: residuals_positive_def)
    then have "0 \<le> sum_list (map o_quantity (orders lvl))" by (rule sum_list_positive)
    with w show ?thesis by (simp add: int64_max_def wrap64_id)
  qed
  from fresh totals show ?thesis by blast
qed

theorem index_consistent_with_fresh_ids_witness:
  "ids_fresh fresh_id_ops init_book
   \<and> dom (order_lookup (run fresh_id_ops init_book)) = {2}
   \<and> order_count (run fresh_id_ops init_book) = 1
   \<and> buy_levels (run fresh_id_ops init_book)
       = [(10000, \<lparr>orders = [bid_2], total_quantity = 60\<rparr>)]
   \<and> sum_list (map o_quantity [bid_2]) \<le> int64_max
   \<and> total_quantity \<lparr>orders = [bid_2], total_quantity = 60\<rparr> = sum_list (map o_quantity [bid_2])"
proof -
  have h: "ids_fresh fresh_id_ops init_book"
    by (simp add: fresh_id_ops_def bid_1_def bid_2_def book_defs)
  have d: "dom (order_lookup (run fresh_id_ops init_book)) = {2}"
    by (simp add: fresh_id_ops_def bid_1_def bid_2_def book_defs)
  have l: "buy_levels (run fresh_id_ops init_book)
       = [(10000, \<lparr>orders = [bid_2], total_quantity = 60\<rparr>)]"
    by (simp add: fresh_id_ops_def bid_1_def bid_2_def book_defs)
  have s: "sum_list (map o_quantity [bid_2]) \<le> int64_max"
    by (simp add: bid_2_def int64_max_def)
  have mem: "(10000, \<lparr>orders = [bid_2], total_quantity = 60\<rparr>)
      \<in> set (buy_levels (run fresh_id_ops init_book)) \<union> set (sell_levels (run fresh_id_ops init_book))"
    by (simp add: l)
  note inst = index_consistent_with_fresh_ids[of fresh_id_ops]
  from inst h d have c: "order_count (run fresh_id_ops init_book) = 1" by simp
  from inst have "\<forall>(p, lvl)\<in>set (buy_levels (run fresh_id_ops init_book))
                    \<union> set (sell_levels (run fresh_id_ops init_book)).
         total_quantity lvl = wrap64 (sum_list (map o_quantity (orders lvl)))
         \<and> (sum_list (map o_quantity (orders lvl)) \<le> int64_max
              \<longrightarrow> total_quantity lvl = sum_list (map o_quantity (orders lvl)))"
    by blast
  from this[THEN bspec, OF mem] s
  have "total_quantity \<lparr>orders = [bid_2], total_quantity = 60\<rparr> = sum_list (map o_quantity [bid_2])"
    by simp
  with h d c l s show ?thesis by blast
qed

text \<open>
  C6. Every trade returned by \<^verbatim>\<open>add_market_order\<close> on a book reachable from the
  empty book carries the price at which its maker was admitted: the run that led to
  the book contains an \<^verbatim>\<open>add_limit_order\<close> call that returned true for an order with
  the maker's id, resting on the side opposite to the aggressor, whose price is the
  price of the trade.
\<close>

theorem trade_price_is_maker_admission_price:
  "t \<in> set (fst (add_market_order side quantity taker ts (run ops init_book))) \<Longrightarrow>
     \<exists>ops1 ord ops2. ops = ops1 @ AddLimitOrder ord # ops2
         \<and> fst (add_limit_order ord (run ops1 init_book))
         \<and> o_id ord = maker_id t \<and> o_price ord = t_price t \<and> o_side ord \<noteq> side"
proof -
  let ?b = "run ops init_book"
  let ?opp = "if side = BUY then SELL else BUY"
  assume t: "t \<in> set (fst (add_market_order side quantity taker ts ?b))"
  obtain trades b' where a: "add_market_order side quantity taker ts ?b = (trades, b')"
    by (cases "add_market_order side quantity taker ts ?b")
  from a obtain ls' r' b0 where
    m: "match_levels taker ts (opposite_levels side ?b) quantity [] ?b = (ls', r', trades, b0)"
    by (rule add_market_order_trades)
  from match_levels_trades[OF m, of ?opp] t a
  have "(maker_id t, (t_price t, ?opp)) \<in> set (entries ?opp (opposite_levels side ?b))" by simp
  with opposite_entries have "(maker_id t, (t_price t, ?opp)) \<in> set (book_entries ?b)" by blast
  with run_admitted[of ops init_book] have "(maker_id t, (t_price t, ?opp)) \<in> admitted ops"
    by (auto simp: book_entries_def init_book_def)
  then obtain ord where ord: "AddLimitOrder ord \<in> set ops" "is_valid_price (o_price ord)"
    "is_valid_quantity (o_quantity ord)" "o_id ord = maker_id t" "o_price ord = t_price t"
    "o_side ord = ?opp" by (auto simp: admitted_def)
  from ord(1) obtain ops1 ops2 where split: "ops = ops1 @ AddLimitOrder ord # ops2"
    by (meson split_list)
  from ord(2,3) have "fst (add_limit_order ord (run ops1 init_book))"
    by (simp add: add_limit_order_def add_limit_order_to_side_def Let_def)
  with split ord(4,5,6) show ?thesis
    by (intro exI[of _ ops1] exI[of _ ord] exI[of _ ops2]) (auto split: if_splits)
qed

theorem trade_price_is_maker_admission_price_witness:
  "\<lparr>maker_id = 2, taker_id = 3, t_price = 10003, t_quantity = 30, t_timestamp = 1001\<rparr>
      \<in> set (fst (add_market_order BUY 70 3 1001 (run s2_ops init_book)))
   \<and> (\<exists>ops1 ord ops2. s2_ops = ops1 @ AddLimitOrder ord # ops2
         \<and> fst (add_limit_order ord (run ops1 init_book))
         \<and> o_id ord = 2 \<and> o_price ord = 10003 \<and> o_side ord \<noteq> BUY)"
proof -
  let ?t = "\<lparr>maker_id = 2, taker_id = 3, t_price = 10003, t_quantity = 30, t_timestamp = 1001\<rparr>"
  have h: "?t \<in> set (fst (add_market_order BUY 70 3 1001 (run s2_ops init_book)))"
    by (simp add: s2_ops_def book_defs)
  from h trade_price_is_maker_admission_price[OF h] show ?thesis by simp
qed

text \<open>
  C7. Price-time priority within the trade list of one \<^verbatim>\<open>add_market_order\<close> call on
  a reachable book. For a buy aggressor the trade prices never decrease along the
  list, for a sell aggressor they never increase. Every trade price is the key of a
  level of the walked side; for each such level the makers of the trades at its price
  are, in order, the first orders of that level's queue, and the ids of that queue
  are, in order, among the ids admitted on that side at that price, in the order of
  the \<^verbatim>\<open>add_limit_order\<close> calls. So for any two trades at one price, the run that led to
  the book contains two \<^verbatim>\<open>add_limit_order\<close> calls that returned true, the one carrying
  the id of the earlier trade's maker before the one carrying the id of the later
  trade's maker, both at the price of the trades on the walked side, and each of them
  left its order at the tail of the queue of the level at that price.
\<close>

theorem price_time_priority:
  "(side = BUY \<longrightarrow>
      sorted_wrt (\<le>) (map t_price (fst (add_market_order side quantity taker ts (run ops init_book)))))
   \<and> (side = SELL \<longrightarrow>
      sorted_wrt (\<ge>) (map t_price (fst (add_market_order side quantity taker ts (run ops init_book)))))
   \<and> (\<forall>t\<in>set (fst (add_market_order side quantity taker ts (run ops init_book))).
        t_price t \<in> fst ` set (opposite_levels side (run ops init_book)))
   \<and> (\<forall>(p, lvl)\<in>set (opposite_levels side (run ops init_book)).
        prefix (map maker_id (filter (\<lambda>t. t_price t = p)
                  (fst (add_market_order side quantity taker ts (run ops init_book)))))
               (map o_id (orders lvl))
        \<and> subseq (map o_id (orders lvl))
            (admitted_at (if side = BUY then SELL else BUY) p (admissions ops init_book)))
   \<and> (\<forall>t1 x t2 y t3.
        fst (add_market_order side quantity taker ts (run ops init_book)) = t1 @ x # t2 @ y # t3
        \<and> t_price x = t_price y \<longrightarrow>
        (\<exists>ops1 oa ops2 ob ops3.
           ops = ops1 @ AddLimitOrder oa # ops2 @ AddLimitOrder ob # ops3
           \<and> fst (add_limit_order oa (run ops1 init_book))
           \<and> fst (add_limit_order ob (run (ops1 @ AddLimitOrder oa # ops2) init_book))
           \<and> o_id oa = maker_id x \<and> o_price oa = t_price x \<and> o_side oa \<noteq> side
           \<and> o_id ob = maker_id y \<and> o_price ob = t_price y \<and> o_side ob \<noteq> side
           \<and> (\<exists>l. (t_price x, l) \<in> set (opposite_levels side (run (ops1 @ [AddLimitOrder oa]) init_book))
                  \<and> orders l \<noteq> [] \<and> last (orders l) = oa)
           \<and> (\<exists>l. (t_price y, l) \<in> set (opposite_levels side
                       (run (ops1 @ AddLimitOrder oa # ops2 @ [AddLimitOrder ob]) init_book))
                  \<and> orders l \<noteq> [] \<and> last (orders l) = ob)))"
proof -
  let ?b = "run ops init_book"
  let ?ls = "opposite_levels side ?b"
  let ?opp = "if side = BUY then SELL else BUY"
  obtain trades b' where a: "add_market_order side quantity taker ts ?b = (trades, b')"
    by (cases "add_market_order side quantity taker ts ?b")
  from a obtain ls' r' b0 where
    m: "match_levels taker ts ?ls quantity [] ?b = (ls', r', trades, b0)"
    by (rule add_market_order_trades)
  have ks: "keys_sorted ?b" by (simp add: run_keys_sorted init_invariants)
  with keys_sorted_distinct have d: "distinct (map fst ?ls)"
    by (simp add: opposite_levels_def)
  have up: "sorted_wrt (\<le>) (map t_price trades)" if "side = BUY"
  proof -
    from ks that have "sorted_wrt (\<lambda>x y. x < y) (map fst ?ls)"
      by (simp add: keys_sorted_def opposite_levels_def)
    from match_levels_prices_sorted[OF m this] show ?thesis
      by (rule sorted_wrt_mono_rel[rotated]) auto
  qed
  have down: "sorted_wrt (\<ge>) (map t_price trades)" if "side = SELL"
  proof -
    from ks that have "sorted_wrt (\<lambda>x y. x > y) (map fst ?ls)"
      by (simp add: keys_sorted_def opposite_levels_def)
    from match_levels_prices_sorted[OF m this] show ?thesis
      by (rule sorted_wrt_mono_rel[rotated]) auto
  qed
  have keys: "\<forall>t\<in>set trades. t_price t \<in> fst ` set ?ls"
    using match_levels_trades[OF m, of BUY] entries_key by blast
  have fifo: "prefix (map maker_id (filter (\<lambda>t. t_price t = p) trades)) (map o_id (orders lvl))"
    if "(p, lvl) \<in> set ?ls" for p lvl
    using match_levels_fifo[OF m d that] .
  have hist: "subseq (map o_id (orders lvl)) (admitted_at ?opp p (admissions ops init_book))"
    if "(p, lvl) \<in> set ?ls" for p lvl
    using run_queue_history[OF that] .
  have queue: "\<forall>(p, lvl)\<in>set ?ls.
        prefix (map maker_id (filter (\<lambda>t. t_price t = p) trades)) (map o_id (orders lvl))
        \<and> subseq (map o_id (orders lvl)) (admitted_at ?opp p (admissions ops init_book))"
    using fifo hist by blast
  have pair: "\<exists>ops1 oa ops2 ob ops3.
           ops = ops1 @ AddLimitOrder oa # ops2 @ AddLimitOrder ob # ops3
           \<and> fst (add_limit_order oa (run ops1 init_book))
           \<and> fst (add_limit_order ob (run (ops1 @ AddLimitOrder oa # ops2) init_book))
           \<and> o_id oa = maker_id x \<and> o_price oa = t_price x \<and> o_side oa \<noteq> side
           \<and> o_id ob = maker_id y \<and> o_price ob = t_price y \<and> o_side ob \<noteq> side
           \<and> (\<exists>l. (t_price x, l) \<in> set (opposite_levels side (run (ops1 @ [AddLimitOrder oa]) init_book))
                  \<and> orders l \<noteq> [] \<and> last (orders l) = oa)
           \<and> (\<exists>l. (t_price y, l) \<in> set (opposite_levels side
                       (run (ops1 @ AddLimitOrder oa # ops2 @ [AddLimitOrder ob]) init_book))
                  \<and> orders l \<noteq> [] \<and> last (orders l) = ob)"
    if split: "trades = t1 @ x # t2 @ y # t3" and same: "t_price x = t_price y"
    for t1 x t2 y t3
  proof -
    let ?p = "t_price x"
    from split keys have "?p \<in> fst ` set ?ls" by simp
    then obtain lvl where lvl: "(?p, lvl) \<in> set ?ls" by auto
    have "map maker_id (filter (\<lambda>t. t_price t = ?p) trades)
        = map maker_id (filter (\<lambda>t. t_price t = ?p) t1) @ maker_id x
          # map maker_id (filter (\<lambda>t. t_price t = ?p) t2) @ maker_id y
          # map maker_id (filter (\<lambda>t. t_price t = ?p) t3)"
      using split same by simp
    then have "subseq [maker_id x, maker_id y] (map maker_id (filter (\<lambda>t. t_price t = ?p) trades))"
      using subseq_two_of by metis
    also have "subseq \<dots> (map o_id (orders lvl))"
      using fifo[OF lvl] by (rule prefix_imp_subseq)
    also have "subseq \<dots> (admitted_at ?opp ?p (admissions ops init_book))"
      using hist[OF lvl] .
    finally have "subseq [maker_id x, maker_id y]
        (map o_id (filter (\<lambda>z. o_side z = ?opp \<and> o_price z = ?p) (admissions ops init_book)))"
      by (simp add: admitted_at_def)
    from subseq_two_split[OF this] obtain a1 oa a2 ob a3 where
      adm: "admissions ops init_book = a1 @ oa # a2 @ ob # a3"
      and oa: "o_side oa = ?opp" "o_price oa = ?p" "o_id oa = maker_id x"
      and ob: "o_side ob = ?opp" "o_price ob = ?p" "o_id ob = maker_id y"
      by blast
    from admissions_split2[OF adm] obtain ops1 ops2 ops3 where
      ops: "ops = ops1 @ AddLimitOrder oa # ops2 @ AddLimitOrder ob # ops3"
      and ra: "fst (add_limit_order oa (run ops1 init_book))"
      and rb: "fst (add_limit_order ob (run (ops1 @ AddLimitOrder oa # ops2) init_book))"
      by blast
    from oa(1) ob(1) have sides: "o_side oa \<noteq> side" "o_side ob \<noteq> side"
      by (cases side; simp)+
    from add_limit_order_appended[OF ra sides(1)] oa(2)
    have la: "\<exists>l. (?p, l) \<in> set (opposite_levels side (run (ops1 @ [AddLimitOrder oa]) init_book))
                  \<and> orders l \<noteq> [] \<and> last (orders l) = oa"
      by (simp add: run_append)
    have "run (ops1 @ AddLimitOrder oa # ops2 @ [AddLimitOrder ob]) init_book
        = snd (add_limit_order ob (run (ops1 @ AddLimitOrder oa # ops2) init_book))"
      using run_append[of "ops1 @ AddLimitOrder oa # ops2" "[AddLimitOrder ob]" init_book] by simp
    with add_limit_order_appended[OF rb sides(2)] ob(2) same
    have lb: "\<exists>l. (t_price y, l) \<in> set (opposite_levels side
                       (run (ops1 @ AddLimitOrder oa # ops2 @ [AddLimitOrder ob]) init_book))
                  \<and> orders l \<noteq> [] \<and> last (orders l) = ob"
      by simp
    from ops ra rb oa ob sides la lb same
    have "ops = ops1 @ AddLimitOrder oa # ops2 @ AddLimitOrder ob # ops3
           \<and> fst (add_limit_order oa (run ops1 init_book))
           \<and> fst (add_limit_order ob (run (ops1 @ AddLimitOrder oa # ops2) init_book))
           \<and> o_id oa = maker_id x \<and> o_price oa = t_price x \<and> o_side oa \<noteq> side
           \<and> o_id ob = maker_id y \<and> o_price ob = t_price y \<and> o_side ob \<noteq> side
           \<and> (\<exists>l. (t_price x, l) \<in> set (opposite_levels side (run (ops1 @ [AddLimitOrder oa]) init_book))
                  \<and> orders l \<noteq> [] \<and> last (orders l) = oa)
           \<and> (\<exists>l. (t_price y, l) \<in> set (opposite_levels side
                       (run (ops1 @ AddLimitOrder oa # ops2 @ [AddLimitOrder ob]) init_book))
                  \<and> orders l \<noteq> [] \<and> last (orders l) = ob)"
      by simp
    then show ?thesis
      by - (rule exI[of _ ops1], rule exI[of _ oa], rule exI[of _ ops2], rule exI[of _ ob],
            rule exI[of _ ops3], assumption)
  qed
  have pairs: "\<forall>t1 x t2 y t3.
        trades = t1 @ x # t2 @ y # t3 \<and> t_price x = t_price y \<longrightarrow>
        (\<exists>ops1 oa ops2 ob ops3.
           ops = ops1 @ AddLimitOrder oa # ops2 @ AddLimitOrder ob # ops3
           \<and> fst (add_limit_order oa (run ops1 init_book))
           \<and> fst (add_limit_order ob (run (ops1 @ AddLimitOrder oa # ops2) init_book))
           \<and> o_id oa = maker_id x \<and> o_price oa = t_price x \<and> o_side oa \<noteq> side
           \<and> o_id ob = maker_id y \<and> o_price ob = t_price y \<and> o_side ob \<noteq> side
           \<and> (\<exists>l. (t_price x, l) \<in> set (opposite_levels side (run (ops1 @ [AddLimitOrder oa]) init_book))
                  \<and> orders l \<noteq> [] \<and> last (orders l) = oa)
           \<and> (\<exists>l. (t_price y, l) \<in> set (opposite_levels side
                       (run (ops1 @ AddLimitOrder oa # ops2 @ [AddLimitOrder ob]) init_book))
                  \<and> orders l \<noteq> [] \<and> last (orders l) = ob))"
    by (intro allI impI) (erule conjE, rule pair, assumption+)
  have up': "side = BUY \<longrightarrow> sorted_wrt (\<le>) (map t_price trades)" using up by (rule impI)
  have down': "side = SELL \<longrightarrow> sorted_wrt (\<ge>) (map t_price trades)" using down by (rule impI)
  have tr: "fst (add_market_order side quantity taker ts ?b) = trades" by (simp add: a)
  show ?thesis unfolding tr
    by (rule conjI[OF up' conjI[OF down' conjI[OF keys conjI[OF queue pairs]]]])
qed

theorem price_time_priority_witness:
  "fst (add_market_order BUY 70 3 1001 (run s2_ops init_book))
     = [\<lparr>maker_id = 1, taker_id = 3, t_price = 10002, t_quantity = 40, t_timestamp = 1001\<rparr>,
        \<lparr>maker_id = 2, taker_id = 3, t_price = 10003, t_quantity = 30, t_timestamp = 1001\<rparr>]
   \<and> sorted_wrt (\<le>) (map t_price (fst (add_market_order BUY 70 3 1001 (run s2_ops init_book))))
   \<and> fst (add_market_order SELL 70 3 1001 (run s3_ops init_book))
     = [\<lparr>maker_id = 1, taker_id = 3, t_price = 10000, t_quantity = 50, t_timestamp = 1001\<rparr>,
        \<lparr>maker_id = 2, taker_id = 3, t_price = 10000, t_quantity = 20, t_timestamp = 1001\<rparr>]
   \<and> sorted_wrt (\<ge>) (map t_price (fst (add_market_order SELL 70 3 1001 (run s3_ops init_book))))
   \<and> opposite_levels SELL (run s3_ops init_book)
     = [(10000, \<lparr>orders = [bid_1, bid_2], total_quantity = 110\<rparr>)]
   \<and> prefix (map maker_id (filter (\<lambda>t. t_price t = 10000)
                (fst (add_market_order SELL 70 3 1001 (run s3_ops init_book)))))
             (map o_id [bid_1, bid_2])
   \<and> admissions s3_ops init_book = [bid_1, bid_2]
   \<and> subseq (map o_id [bid_1, bid_2]) (admitted_at BUY 10000 (admissions s3_ops init_book))
   \<and> (\<exists>ops1 oa ops2 ob ops3.
         s3_ops = ops1 @ AddLimitOrder oa # ops2 @ AddLimitOrder ob # ops3
         \<and> fst (add_limit_order oa (run ops1 init_book))
         \<and> fst (add_limit_order ob (run (ops1 @ AddLimitOrder oa # ops2) init_book))
         \<and> o_id oa = 1 \<and> o_price oa = 10000 \<and> o_side oa \<noteq> SELL
         \<and> o_id ob = 2 \<and> o_price ob = 10000 \<and> o_side ob \<noteq> SELL
         \<and> (\<exists>l. (10000, l) \<in> set (opposite_levels SELL (run (ops1 @ [AddLimitOrder oa]) init_book))
                \<and> orders l \<noteq> [] \<and> last (orders l) = oa)
         \<and> (\<exists>l. (10000, l) \<in> set (opposite_levels SELL
                     (run (ops1 @ AddLimitOrder oa # ops2 @ [AddLimitOrder ob]) init_book))
                \<and> orders l \<noteq> [] \<and> last (orders l) = ob))"
proof -
  let ?ta = "\<lparr>maker_id = 1, taker_id = 3, t_price = 10000, t_quantity = 50, t_timestamp = 1001\<rparr>"
  let ?tb = "\<lparr>maker_id = 2, taker_id = 3, t_price = 10000, t_quantity = 20, t_timestamp = 1001\<rparr>"
  have e2: "fst (add_market_order BUY 70 3 1001 (run s2_ops init_book))
     = [\<lparr>maker_id = 1, taker_id = 3, t_price = 10002, t_quantity = 40, t_timestamp = 1001\<rparr>,
        \<lparr>maker_id = 2, taker_id = 3, t_price = 10003, t_quantity = 30, t_timestamp = 1001\<rparr>]"
    by (simp add: s2_ops_def book_defs)
  have e3: "fst (add_market_order SELL 70 3 1001 (run s3_ops init_book)) = [?ta, ?tb]"
    by (simp add: s3_ops_def bid_1_def bid_2_def book_defs)
  have l3: "opposite_levels SELL (run s3_ops init_book)
     = [(10000, \<lparr>orders = [bid_1, bid_2], total_quantity = 110\<rparr>)]"
    by (simp add: opposite_levels_def s3_ops_def bid_1_def bid_2_def book_defs)
  have ad: "admissions s3_ops init_book = [bid_1, bid_2]"
    by (simp add: s3_ops_def bid_1_def bid_2_def book_defs)
  note buy = price_time_priority[of BUY 70 3 1001 s2_ops]
  note sell = price_time_priority[of SELL 70 3 1001 s3_ops]
  from buy have up: "sorted_wrt (\<le>) (map t_price (fst (add_market_order BUY 70 3 1001 (run s2_ops init_book))))"
    by blast
  from sell have down: "sorted_wrt (\<ge>) (map t_price (fst (add_market_order SELL 70 3 1001 (run s3_ops init_book))))"
    by blast
  have mem: "(10000, \<lparr>orders = [bid_1, bid_2], total_quantity = 110\<rparr>)
               \<in> set (opposite_levels SELL (run s3_ops init_book))"
    by (simp only: l3 list.set insertI1)
  note queue = sell[THEN conjunct2, THEN conjunct2, THEN conjunct2, THEN conjunct1, THEN bspec, OF mem]
  from queue
  have fifo: "prefix (map maker_id (filter (\<lambda>t. t_price t = 10000)
                (fst (add_market_order SELL 70 3 1001 (run s3_ops init_book)))))
             (map o_id [bid_1, bid_2])"
    by (simp only: prod.case OrderBookPriceLevel.select_convs)
  from queue
  have hist: "subseq (map o_id [bid_1, bid_2]) (admitted_at BUY 10000 (admissions s3_ops init_book))"
    by (simp only: prod.case OrderBookPriceLevel.select_convs Side.distinct if_False)
  have split: "fst (add_market_order SELL 70 3 1001 (run s3_ops init_book)) = [] @ ?ta # [] @ ?tb # []
      \<and> t_price ?ta = t_price ?tb"
    by (simp add: e3)
  note pair = sell[THEN conjunct2, THEN conjunct2, THEN conjunct2, THEN conjunct2, rule_format,
      of "[]" ?ta "[]" ?tb "[]", OF split]
  from pair have earlier: "\<exists>ops1 oa ops2 ob ops3.
         s3_ops = ops1 @ AddLimitOrder oa # ops2 @ AddLimitOrder ob # ops3
         \<and> fst (add_limit_order oa (run ops1 init_book))
         \<and> fst (add_limit_order ob (run (ops1 @ AddLimitOrder oa # ops2) init_book))
         \<and> o_id oa = 1 \<and> o_price oa = 10000 \<and> o_side oa \<noteq> SELL
         \<and> o_id ob = 2 \<and> o_price ob = 10000 \<and> o_side ob \<noteq> SELL
         \<and> (\<exists>l. (10000, l) \<in> set (opposite_levels SELL (run (ops1 @ [AddLimitOrder oa]) init_book))
                \<and> orders l \<noteq> [] \<and> last (orders l) = oa)
         \<and> (\<exists>l. (10000, l) \<in> set (opposite_levels SELL
                     (run (ops1 @ AddLimitOrder oa # ops2 @ [AddLimitOrder ob]) init_book))
                \<and> orders l \<noteq> [] \<and> last (orders l) = ob)"
    by (simp only: Trade.select_convs)
  show ?thesis
    by (rule conjI[OF e2 conjI[OF up conjI[OF e3 conjI[OF down conjI[OF l3 conjI[OF fifo
          conjI[OF ad conjI[OF hist earlier]]]]]]]])
qed

text \<open>
  C2 as stated fails. \<^verbatim>\<open>clear\<close> resets the three counters, as its tests expect, and
  \<^verbatim>\<open>total_volume_\<close> is a 64-bit accumulator. A resting sell of 50 is taken whole and
  the book is cleared: the book has returned one trade, at 10002, and the three
  counters are 0. Then two resting sells of the largest quantity are taken whole: the
  book has returned three trades, \<^verbatim>\<open>trade_count\<close> is 2, and \<^verbatim>\<open>total_volume\<close> is -2,
  which is neither the sum over the three trades nor the sum over the two trades since
  the \<^verbatim>\<open>clear\<close>; none of the trades is a partial fill.
\<close>

theorem counters_reset_by_clear_and_wrap:
  "all_trades full_fill_then_clear init_book
     = [\<lparr>maker_id = 1, taker_id = 2, t_price = 10002, t_quantity = 50, t_timestamp = 1001\<rparr>]
   \<and> trade_count (run full_fill_then_clear init_book) = 0
   \<and> last_trade_price (run full_fill_then_clear init_book) = 0
   \<and> total_volume (run full_fill_then_clear init_book) = 0
   \<and> all_trades clear_then_two_big_fills init_book
     = [\<lparr>maker_id = 1, taker_id = 2, t_price = 10002, t_quantity = 50, t_timestamp = 1001\<rparr>,
        \<lparr>maker_id = 1, taker_id = 3, t_price = 10002, t_quantity = 9223372036854775807,
          t_timestamp = 2001\<rparr>,
        \<lparr>maker_id = 4, taker_id = 5, t_price = 10002, t_quantity = 9223372036854775807,
          t_timestamp = 2003\<rparr>]
   \<and> trades_since_clear clear_then_two_big_fills init_book []
     = [\<lparr>maker_id = 1, taker_id = 3, t_price = 10002, t_quantity = 9223372036854775807,
          t_timestamp = 2001\<rparr>,
        \<lparr>maker_id = 4, taker_id = 5, t_price = 10002, t_quantity = 9223372036854775807,
          t_timestamp = 2003\<rparr>]
   \<and> \<not> partial_fill_since_clear clear_then_two_big_fills init_book False
   \<and> trade_count (run clear_then_two_big_fills init_book) = 2
   \<and> total_volume (run clear_then_two_big_fills init_book) = - 2
   \<and> trade_count (run clear_then_two_big_fills init_book)
       \<noteq> int (length (all_trades clear_then_two_big_fills init_book))
   \<and> total_volume (run clear_then_two_big_fills init_book)
       \<noteq> sum_list (map t_quantity (all_trades clear_then_two_big_fills init_book))
   \<and> total_volume (run clear_then_two_big_fills init_book)
       \<noteq> sum_list (map t_quantity (trades_since_clear clear_then_two_big_fills init_book []))"
proof -
  have f: "all_trades full_fill_then_clear init_book
     = [\<lparr>maker_id = 1, taker_id = 2, t_price = 10002, t_quantity = 50, t_timestamp = 1001\<rparr>]"
    "trade_count (run full_fill_then_clear init_book) = 0"
    "last_trade_price (run full_fill_then_clear init_book) = 0"
    "total_volume (run full_fill_then_clear init_book) = 0"
    by (simp_all add: full_fill_then_clear_def ask_1_def book_defs)
  have a: "all_trades clear_then_two_big_fills init_book
     = [\<lparr>maker_id = 1, taker_id = 2, t_price = 10002, t_quantity = 50, t_timestamp = 1001\<rparr>,
        \<lparr>maker_id = 1, taker_id = 3, t_price = 10002, t_quantity = 9223372036854775807,
          t_timestamp = 2001\<rparr>,
        \<lparr>maker_id = 4, taker_id = 5, t_price = 10002, t_quantity = 9223372036854775807,
          t_timestamp = 2003\<rparr>]"
    by (simp add: clear_then_two_big_fills_def full_fill_then_clear_def ask_1_def big_ask_1_def
          big_ask_4_def int64_max_def book_defs)
  have r: "trades_since_clear clear_then_two_big_fills init_book []
     = [\<lparr>maker_id = 1, taker_id = 3, t_price = 10002, t_quantity = 9223372036854775807,
          t_timestamp = 2001\<rparr>,
        \<lparr>maker_id = 4, taker_id = 5, t_price = 10002, t_quantity = 9223372036854775807,
          t_timestamp = 2003\<rparr>]"
    by (simp add: clear_then_two_big_fills_def full_fill_then_clear_def ask_1_def big_ask_1_def
          big_ask_4_def int64_max_def book_defs)
  have p: "\<not> partial_fill_since_clear clear_then_two_big_fills init_book False"
    by (simp add: clear_then_two_big_fills_def full_fill_then_clear_def ask_1_def big_ask_1_def
          big_ask_4_def int64_max_def opposite_levels_def resting_def book_defs)
  have c: "trade_count (run clear_then_two_big_fills init_book) = 2"
    by (simp add: clear_then_two_big_fills_def full_fill_then_clear_def ask_1_def big_ask_1_def
          big_ask_4_def int64_max_def book_defs)
  have v: "total_volume (run clear_then_two_big_fills init_book) = - 2"
    by (simp add: clear_then_two_big_fills_def full_fill_then_clear_def ask_1_def big_ask_1_def
          big_ask_4_def int64_max_def book_defs)
  show ?thesis unfolding f a r c v using p by simp
qed

text \<open>
  C2, amended: in every state reachable from the empty book by \<^verbatim>\<open>OrderBook\<close>
  operations, \<^verbatim>\<open>trade_count\<close> is the number of trades the book has returned since
  the last \<^verbatim>\<open>clear\<close> (since construction when there was none) and \<^verbatim>\<open>last_trade_price\<close>
  is the price of the most recent of them (0 if there is none). When none of them was
  a partial fill of its maker, \<^verbatim>\<open>total_volume\<close> is the sum of their quantities reduced
  to the 64-bit range of \<^verbatim>\<open>Qty\<close>, hence that sum itself whenever the sum is at most
  \<open>2^63 - 1\<close>.
\<close>

theorem counters_track_trades_since_clear:
  "trade_count (run ops init_book) = int (length (trades_since_clear ops init_book []))
   \<and> last_trade_price (run ops init_book)
       = (if trades_since_clear ops init_book [] = [] then 0
          else t_price (last (trades_since_clear ops init_book [])))
   \<and> (\<not> partial_fill_since_clear ops init_book False \<longrightarrow>
        total_volume (run ops init_book)
          = wrap64 (sum_list (map t_quantity (trades_since_clear ops init_book []))))
   \<and> (\<not> partial_fill_since_clear ops init_book False
        \<and> sum_list (map t_quantity (trades_since_clear ops init_book [])) \<le> int64_max \<longrightarrow>
        total_volume (run ops init_book)
          = sum_list (map t_quantity (trades_since_clear ops init_book [])))"
proof -
  from trades_since_clear_positive[OF init_positive, of "[]" ops]
  have "0 \<le> sum_list (map t_quantity (trades_since_clear ops init_book []))"
    by (intro sum_list_positive) simp
  then have "sum_list (map t_quantity (trades_since_clear ops init_book [])) \<le> int64_max
      \<Longrightarrow> wrap64 (sum_list (map t_quantity (trades_since_clear ops init_book [])))
          = sum_list (map t_quantity (trades_since_clear ops init_book []))"
    by (simp add: int64_max_def wrap64_id)
  with run_stats[of init_book "[]" False ops] show ?thesis
    by (simp add: stats_track_def init_book_def)
qed

theorem counters_track_trades_since_clear_witness:
  "\<not> partial_fill_since_clear full_fill_ops init_book False
   \<and> trades_since_clear full_fill_ops init_book []
       = [\<lparr>maker_id = 1, taker_id = 2, t_price = 10002, t_quantity = 50, t_timestamp = 1001\<rparr>]
   \<and> sum_list (map t_quantity (trades_since_clear full_fill_ops init_book [])) \<le> int64_max
   \<and> trade_count (run full_fill_ops init_book) = 1
   \<and> last_trade_price (run full_fill_ops init_book) = 10002
   \<and> total_volume (run full_fill_ops init_book) = 50"
proof -
  have h: "\<not> partial_fill_since_clear full_fill_ops init_book False"
    by (simp add: full_fill_ops_def ask_1_def opposite_levels_def resting_def book_defs)
  have t: "trades_since_clear full_fill_ops init_book []
       = [\<lparr>maker_id = 1, taker_id = 2, t_price = 10002, t_quantity = 50, t_timestamp = 1001\<rparr>]"
    by (simp add: full_fill_ops_def ask_1_def book_defs)
  have s: "sum_list (map t_quantity (trades_since_clear full_fill_ops init_book [])) \<le> int64_max"
    by (simp add: t int64_max_def)
  from counters_track_trades_since_clear[of full_fill_ops] h s t show ?thesis by simp
qed

text \<open>
  The partial-fill branch of the matchers adds \<^verbatim>\<open>remaining_qty\<close> to \<^verbatim>\<open>total_volume_\<close>
  after setting it to 0: a market buy of 30 against a resting sell of 50 returns a
  trade of quantity 30 and leaves \<^verbatim>\<open>total_volume\<close> at 0.
\<close>

lemma partial_fill_adds_no_volume:
  "all_trades partial_fill_ops init_book
     = [\<lparr>maker_id = 1, taker_id = 2, t_price = 10002, t_quantity = 30, t_timestamp = 1001\<rparr>]
   \<and> total_volume (run partial_fill_ops init_book) = 0
   \<and> trade_count (run partial_fill_ops init_book) = 1
   \<and> last_trade_price (run partial_fill_ops init_book) = 10002"
  by (simp add: partial_fill_ops_def ask_1_def book_defs)

section \<open>Claims about the engine\<close>

text \<open>
  C5. After the engine has processed any sequence of events from the empty book,
  the bid side is empty, or the ask side is empty, or the best bid price is below the
  best ask price. A marketable limit order is admitted at the front of its own side
  and then consumed whole by the matcher call that follows (see C1), which puts the
  level maps back as they were.
\<close>

theorem book_never_crossed:
  "buy_levels (snd (process_events events init_book)) = []
   \<or> sell_levels (snd (process_events events init_book)) = []
   \<or> (\<exists>best_bid best_ask.
         best_bid_price (snd (process_events events init_book)) = Some best_bid
       \<and> best_ask_price (snd (process_events events init_book)) = Some best_ask
       \<and> best_bid < best_ask)"
proof -
  let ?b = "snd (process_events events init_book)"
  have "keys_sorted init_book" "uncrossed init_book"
    by (simp_all add: keys_sorted_def uncrossed_def init_book_def)
  from process_events_inv[OF this, of events] have u: "uncrossed ?b" by simp
  show ?thesis
  proof (cases "buy_levels ?b")
    case Nil
    then show ?thesis by simp
  next
    case bc: (Cons bl bids)
    show ?thesis
    proof (cases "sell_levels ?b")
      case Nil
      then show ?thesis by simp
    next
      case sc: (Cons al asks)
      from u bc sc have "fst bl < fst al" by (simp add: uncrossed_def)
      with bc sc show ?thesis
        by (cases bl; cases al) (simp add: best_bid_price_def best_ask_price_def)
    qed
  qed
qed

theorem book_never_crossed_witness:
  "best_bid_price (snd (process_events two_sided_events init_book)) = Some 10000
   \<and> best_ask_price (snd (process_events two_sided_events init_book)) = Some 10002
   \<and> (\<exists>best_bid best_ask.
         best_bid_price (snd (process_events two_sided_events init_book)) = Some best_bid
       \<and> best_ask_price (snd (process_events two_sided_events init_book)) = Some best_ask
       \<and> best_bid < best_ask)"
proof -
  have e: "best_bid_price (snd (process_events two_sided_events init_book)) = Some 10000"
    "best_ask_price (snd (process_events two_sided_events init_book)) = Some 10002"
    by (simp_all add: two_sided_events_def engine_defs book_defs)
  then have "buy_levels (snd (process_events two_sided_events init_book)) \<noteq> []"
    "sell_levels (snd (process_events two_sided_events init_book)) \<noteq> []"
    by (auto simp: best_bid_price_def best_ask_price_def)
  with book_never_crossed[of two_sided_events] e show ?thesis by blast
qed

section \<open>Claims settled by evaluation or by one unfolding\<close>

text \<open>
  C1. Scenario S4 on the code: the book left by S1 holds only the sell order 1 at 10002
  with residual 20. Processing the limit buy 10 at 10005 for 15 admits the order and,
  since 10005 reaches the best ask, calls \<^verbatim>\<open>add_market_order(Side::SELL, ...)\<close>, which
  walks the buy side. The only trade is the new order against itself at its own price
  10005, and the ask at 10002 keeps its quantity 20; the claimed trade against maker 1
  at 10002 and the best-ask quantity 5 do not occur.
\<close>

theorem s4_marketable_limit_trades_with_itself:
  "fst (process_event s4_event s1_book) =
     [\<lparr>maker_id = 10, taker_id = 10, t_price = 10005, t_quantity = 15, t_timestamp = 1100\<rparr>]
   \<and> best_ask_price (snd (process_event s4_event s1_book)) = Some 10002
   \<and> best_ask_quantity (snd (process_event s4_event s1_book)) = Some 20
   \<and> best_bid_price (snd (process_event s4_event s1_book)) = None"
  by (simp add: s1_book_eq s4_event_def engine_defs book_defs)

text \<open>
  C3 as stated fails: \<^verbatim>\<open>add_limit_order\<close> has no test of the id. An order
  whose id is already a key of \<^verbatim>\<open>order_lookup_\<close> is admitted, and the book changes.
\<close>

theorem add_limit_order_duplicate_id_admitted:
  "order_lookup (snd (add_limit_order bid_1 init_book)) (o_id bid_1_again) \<noteq> None
   \<and> fst (add_limit_order bid_1_again (snd (add_limit_order bid_1 init_book))) = True
   \<and> snd (add_limit_order bid_1_again (snd (add_limit_order bid_1 init_book)))
       \<noteq> snd (add_limit_order bid_1 init_book)"
proof -
  have "order_count (snd (add_limit_order bid_1_again (snd (add_limit_order bid_1 init_book))))
          \<noteq> order_count (snd (add_limit_order bid_1 init_book))"
    by (simp add: bid_1_def bid_1_again_def book_defs)
  then have "snd (add_limit_order bid_1_again (snd (add_limit_order bid_1 init_book)))
          \<noteq> snd (add_limit_order bid_1 init_book)"
    by metis
  then show ?thesis
    by (simp add: bid_1_def bid_1_again_def book_defs)
qed

text \<open>
  C3, amended: \<^verbatim>\<open>add_limit_order\<close> returns false and leaves the whole book state
  unchanged whenever the price is not positive or the quantity is not positive.
\<close>

theorem add_limit_order_rejects_nonpositive:
  "o_price ord \<le> 0 \<or> o_quantity ord \<le> 0 \<Longrightarrow> add_limit_order ord b = (False, b)"
  by (auto simp: add_limit_order_def is_valid_price_def is_valid_quantity_def)

theorem add_limit_order_rejects_nonpositive_witness:
  "add_limit_order (bid_1\<lparr>o_price := 0\<rparr>) s1_book = (False, s1_book)
   \<and> add_limit_order (bid_1\<lparr>o_quantity := 0\<rparr>) s1_book = (False, s1_book)"
  using add_limit_order_rejects_nonpositive [of "bid_1\<lparr>o_price := 0\<rparr>" s1_book]
        add_limit_order_rejects_nonpositive [of "bid_1\<lparr>o_quantity := 0\<rparr>" s1_book]
  by simp

text \<open>
  C9. When the side opposite to the aggressor has no level (no ask level for a buy,
  no bid level for a sell), \<^verbatim>\<open>add_market_order\<close> returns no trade and the book it
  leaves is the book it was given, in every field. This holds in every state.
\<close>

theorem add_market_order_empty_opposite:
  "(side = BUY \<longrightarrow> sell_levels b = []) \<and> (side = SELL \<longrightarrow> buy_levels b = [])
     \<Longrightarrow> add_market_order side quantity taker ts b = ([], b)"
  by (cases side)
     (simp_all add: add_market_order_def match_market_order_buy_def match_market_order_sell_def)

theorem add_market_order_empty_opposite_witness:
  "buy_levels s1_book = [] \<and> add_market_order SELL 100 7 2000 s1_book = ([], s1_book)"
  using add_market_order_empty_opposite [of SELL s1_book 100 7 2000]
  by (simp add: s1_book_eq)

text \<open>
  C10. For a quantity that is not positive, \<^verbatim>\<open>add_market_order\<close> returns no trade
  and leaves every field of the book as it was, on either side and in every state.
\<close>

theorem add_market_order_nonpositive_quantity:
  "quantity \<le> 0 \<Longrightarrow> add_market_order side quantity taker ts b = ([], b)"
  by (simp add: add_market_order_def match_market_order_buy_def match_market_order_sell_def
        match_levels_stop)

theorem add_market_order_nonpositive_quantity_witness:
  "add_market_order BUY 0 7 2000 s1_book = ([], s1_book)
   \<and> add_market_order SELL (- 5) 7 2000 s1_book = ([], s1_book)"
  using add_market_order_nonpositive_quantity [of 0 BUY 7 2000 s1_book]
        add_market_order_nonpositive_quantity [of "- 5" SELL 7 2000 s1_book]
  by simp

end
